theory Spec2Isabelle
  imports Complex_Main "HOL-Library.Char_ord" "HOL-Library.List_Lexorder"
begin

section \<open>JSON values as Python sees them\<close>

text \<open>
  \<^verbatim>\<open>json.loads\<close> yields \<^verbatim>\<open>None\<close>, \<^verbatim>\<open>bool\<close>, \<^verbatim>\<open>int\<close>, \<^verbatim>\<open>float\<close>, \<^verbatim>\<open>str\<close>,
  \<^verbatim>\<open>list\<close> and \<^verbatim>\<open>dict\<close>. A \<^verbatim>\<open>dict\<close> keeps its keys in insertion order and holds each
  key once: it is an association list, and \<open>wf_json\<close> says that the keys of every object are
  distinct. A Python \<^verbatim>\<open>float\<close> is represented by the text that \<^verbatim>\<open>json.dumps\<close> writes for it
  (\<^verbatim>\<open>float.__repr__\<close>, or \<^verbatim>\<open>NaN\<close>, \<^verbatim>\<open>Infinity\<close>, \<^verbatim>\<open>-Infinity\<close>); \<open>wf_json\<close> says that this
  text has the shape of such a token. Characters are the 8-bit characters of HOL: code points
  above 255 are outside the model.
\<close>

datatype json =
    JNull
  | JBool bool
  | JInt int
  | JFloat string
  | JStr string
  | JArr "json list"
  | JObj "(string \<times> json) list"

datatype pyerror = JSONDecodeError | ValueError | RecursionError | RequestException | OutsideModel

text \<open>Python truthiness (\<^verbatim>\<open>bool(x)\<close>, as used by \<^verbatim>\<open>or\<close>, \<^verbatim>\<open>if u\<close> and \<^verbatim>\<open>not url\<close>).\<close>

fun py_truthy :: "json \<Rightarrow> bool" where
  "py_truthy JNull = False"
| "py_truthy (JBool b) = b"
| "py_truthy (JInt i) = (i \<noteq> 0)"
| "py_truthy (JFloat r) = (r \<noteq> ''0.0'' \<and> r \<noteq> ''-0.0'')"
| "py_truthy (JStr s) = (s \<noteq> [])"
| "py_truthy (JArr xs) = (xs \<noteq> [])"
| "py_truthy (JObj kvs) = (kvs \<noteq> [])"

text \<open>\<^verbatim>\<open>d.get(k)\<close> and \<^verbatim>\<open>k in d\<close> on a dict.\<close>

definition dict_get :: "(string \<times> json) list \<Rightarrow> string \<Rightarrow> json option" where
  "dict_get kvs k = map_of kvs k"

section \<open>The encoder: \<^verbatim>\<open>json.dumps\<close>\<close>

definition digit_char :: "nat \<Rightarrow> char" where
  "digit_char n = ''0123456789'' ! (n mod 10)"

fun nat_digits :: "nat \<Rightarrow> string" where
  "nat_digits n = (if n < 10 then [digit_char n] else nat_digits (n div 10) @ [digit_char n])"

declare nat_digits.simps [simp del]

text \<open>\<^verbatim>\<open>int.__repr__\<close>: decimal digits, a minus sign for a negative number.\<close>

definition int_repr :: "int \<Rightarrow> string" where
  "int_repr i = (if i < 0 then CHR ''-'' # nat_digits (nat (- i)) else nat_digits (nat i))"

definition hex_digit :: "nat \<Rightarrow> char" where
  "hex_digit n = ''0123456789abcdef'' ! (n mod 16)"

text \<open>\<^verbatim>\<open>'{0:04x}'.format(n)\<close> for a code point below \<open>0x10000\<close>.\<close>

definition hex4 :: "nat \<Rightarrow> string" where
  "hex4 n = [hex_digit (n div 4096), hex_digit (n div 256), hex_digit (n div 16), hex_digit n]"

text \<open>
  What the encoder writes for one character of a string. With \<^verbatim>\<open>ensure_ascii=False\<close>
  (\<^verbatim>\<open>ESCAPE\<close>) the backslash, the double quote and the control characters below \<open>0x20\<close>
  are escaped; with \<^verbatim>\<open>ensure_ascii=True\<close> (\<^verbatim>\<open>ESCAPE_ASCII\<close>) every character outside
  \<^verbatim>\<open>' '..'~'\<close> is escaped as well.
\<close>

definition escape_char :: "bool \<Rightarrow> char \<Rightarrow> string" where
  "escape_char ensure_ascii c =
     (if c = CHR 0x5C then [CHR 0x5C, CHR 0x5C]
      else if c = CHR 0x22 then [CHR 0x5C, CHR 0x22]
      else if c = CHR 0x08 then [CHR 0x5C, CHR ''b'']
      else if c = CHR 0x0C then [CHR 0x5C, CHR ''f'']
      else if c = CHR 0x0A then [CHR 0x5C, CHR ''n'']
      else if c = CHR 0x0D then [CHR 0x5C, CHR ''r'']
      else if c = CHR 0x09 then [CHR 0x5C, CHR ''t'']
      else if (of_char c :: nat) < 0x20 \<or> (ensure_ascii \<and> (of_char c :: nat) > 0x7E)
        then CHR 0x5C # CHR ''u'' # hex4 (of_char c)
      else [c])"

definition encode_basestring :: "bool \<Rightarrow> string \<Rightarrow> string" where
  "encode_basestring ensure_ascii s =
     CHR 0x22 # concat (map (escape_char ensure_ascii) s) @ [CHR 0x22]"

text \<open>\<^verbatim>\<open>sep.join(parts)\<close>.\<close>

fun join :: "string \<Rightarrow> string list \<Rightarrow> string" where
  "join sep [] = []"
| "join sep [x] = x"
| "join sep (x # y # ys) = x @ sep @ join sep (y # ys)"

text \<open>
  \<^verbatim>\<open>json.dumps(obj, ensure_ascii=..., sort_keys=...)\<close> with the default separators
  \<^verbatim>\<open>', '\<close> and \<^verbatim>\<open>': '\<close>. With \<^verbatim>\<open>sort_keys\<close> the items of a dict are written in the order of
  \<^verbatim>\<open>sorted(dct.items())\<close>, which for the distinct keys of a dict is the order of the keys.
\<close>

function dumps :: "bool \<Rightarrow> bool \<Rightarrow> json \<Rightarrow> string" where
  "dumps ea sk JNull = ''null''"
| "dumps ea sk (JBool b) = (if b then ''true'' else ''false'')"
| "dumps ea sk (JInt i) = int_repr i"
| "dumps ea sk (JFloat r) = r"
| "dumps ea sk (JStr s) = encode_basestring ea s"
| "dumps ea sk (JArr xs) = ''['' @ join '', '' (map (dumps ea sk) xs) @ '']''"
| "dumps ea sk (JObj kvs) =
     ''{'' @ join '', ''
        (map (\<lambda>kv. encode_basestring ea (fst kv) @ '': '' @ dumps ea sk (snd kv))
          (if sk then sort_key fst kvs else kvs)) @ ''}''"
  by pat_completeness auto
termination
proof (relation "measure (\<lambda>(ea, sk, v). size v)", goal_cases)
  case 1
  show ?case by simp
next
  case (2 ea sk xs x)
  then show ?case by (induction xs) auto
next
  case (3 ea sk kvs kv)
  then have "kv \<in> set kvs" by (simp split: if_splits)
  then show ?case by (induction kvs) auto
qed

text \<open>The canonical key of a site: line 46 of the source.\<close>

definition normalize_site :: "json \<Rightarrow> string" where
  "normalize_site item = dumps False True item"

section \<open>The regular expressions of the source\<close>

text \<open>
  \<^verbatim>\<open>\s\<close> in a \<^verbatim>\<open>str\<close> pattern is Unicode white space; among the code points below 256
  these are 9..13, 28..32, 133 and 160.
\<close>

definition is_space :: "char \<Rightarrow> bool" where
  "is_space c = ((of_char c :: nat) \<in> {9, 10, 11, 12, 13, 28, 29, 30, 31, 32, 133, 160})"

definition ascii_lower :: "char \<Rightarrow> char" where
  "ascii_lower c = (if CHR ''A'' \<le> c \<and> c \<le> CHR ''Z'' then char_of (of_char c + (32::nat)) else c)"

text \<open>
  A literal of a pattern compiled with \<^verbatim>\<open>re.IGNORECASE\<close>, matched at the start of the text:
  the rest of the text behind it.
\<close>

fun ci_prefix :: "string \<Rightarrow> string \<Rightarrow> string option" where
  "ci_prefix [] s = Some s"
| "ci_prefix (p # ps) [] = None"
| "ci_prefix (p # ps) (c # cs) =
     (if ascii_lower c = ascii_lower p then ci_prefix ps cs else None)"

text \<open>
  \<^verbatim>\<open>SITES_REGEX = re.compile(r'"sites"\s*:\s*(\[[\s\S]*?\])', re.IGNORECASE)\<close>, line 30.
  \<open>match_sites_at\<close> matches it at the start of the text and gives group 1: the lazy
  \<^verbatim>\<open>[\s\S]*?\<close> stops at the first \<^verbatim>\<open>]\<close> behind the opening bracket.
  \<open>SITES_REGEX_search\<close> is \<^verbatim>\<open>SITES_REGEX.search(text)\<close> followed by \<^verbatim>\<open>m.group(1)\<close>: the
  match at the leftmost position that has one.
\<close>

definition match_sites_at :: "string \<Rightarrow> string option" where
  "match_sites_at s =
     (case ci_prefix [CHR 0x22, CHR ''s'', CHR ''i'', CHR ''t'', CHR ''e'', CHR ''s'', CHR 0x22] s of
        None \<Rightarrow> None
      | Some r1 \<Rightarrow>
          (case dropWhile is_space r1 of
             [] \<Rightarrow> None
           | c # r2 \<Rightarrow>
               if c \<noteq> CHR '':'' then None
               else (case dropWhile is_space r2 of
                       [] \<Rightarrow> None
                     | b # r3 \<Rightarrow>
                         if b \<noteq> CHR ''['' then None
                         else if CHR '']'' \<in> set r3
                           then Some (CHR ''['' # takeWhile (\<lambda>x. x \<noteq> CHR '']'') r3 @ '']'')
                         else None)))"

fun SITES_REGEX_search :: "string \<Rightarrow> string option" where
  "SITES_REGEX_search [] = match_sites_at []"
| "SITES_REGEX_search (c # cs) =
     (case match_sites_at (c # cs) of
        Some g \<Rightarrow> Some g
      | None \<Rightarrow> SITES_REGEX_search cs)"

text \<open>
  \<^verbatim>\<open>re.sub(r",\s*([\]\}])", r"\1", arr_text)\<close>, line 68: a comma, the white space behind it
  and a closing bracket or brace are replaced by the bracket or brace; the scan goes on
  behind the replaced text.
\<close>

function strip_trailing_commas :: "string \<Rightarrow> string" where
  "strip_trailing_commas [] = []"
| "strip_trailing_commas (c # cs) =
     (if c = CHR '','' then
        (case dropWhile is_space cs of
           [] \<Rightarrow> c # strip_trailing_commas cs
         | b # r \<Rightarrow>
             if b = CHR '']'' \<or> b = CHR ''}'' then b # strip_trailing_commas r
             else c # strip_trailing_commas cs)
      else c # strip_trailing_commas cs)"
  by pat_completeness auto
termination
proof (relation "measure length", goal_cases)
  case 1
  show ?case by simp
next
  case (2 c cs)
  show ?case by simp
next
  case (3 c cs b r)
  have "length (dropWhile is_space cs) \<le> length cs" by (rule length_dropWhile_le)
  with 3 show ?case by simp
next
  case (4 c cs b r)
  show ?case by simp
next
  case (5 c cs)
  show ?case by simp
qed

text \<open>
  \<^verbatim>\<open>re.finditer(r"https?://[^\s'\",]+", s)\<close> with \<^verbatim>\<open>m.group(0)\<close>, line 138.
  \<open>match_url_at\<close> matches the pattern at the start of the text and gives the match and the
  text behind it; \<open>url_finditer\<close> collects the matches from left to right, each search
  starting where the last match ended.
\<close>

definition url_char :: "char \<Rightarrow> bool" where
  "url_char c = (\<not> is_space c \<and> c \<noteq> CHR 0x27 \<and> c \<noteq> CHR 0x22 \<and> c \<noteq> CHR '','')"

definition match_url_at :: "string \<Rightarrow> (string \<times> string) option" where
  "match_url_at s =
     (let n = (if take 8 s = ''https://'' then 8 else if take 7 s = ''http://'' then 7 else 0);
          body = takeWhile url_char (drop n s)
      in if n = 0 \<or> body = [] then None
         else Some (take n s @ body, dropWhile url_char (drop n s)))"

function url_finditer :: "string \<Rightarrow> string list" where
  "url_finditer [] = []"
| "url_finditer (c # cs) =
     (case match_url_at (c # cs) of
        Some (m, rest) \<Rightarrow> m # url_finditer rest
      | None \<Rightarrow> url_finditer cs)"
  by pat_completeness auto
termination
proof (relation "measure length", goal_cases)
  case 1
  show ?case by simp
next
  case (2 c cs)
  show ?case by simp
next
  case (3 c cs x m rest)
  define n :: nat where
    "n = (if take 8 (c # cs) = ''https://'' then 8 else if take 7 (c # cs) = ''http://'' then 7 else 0)"
  from 3 have n: "n \<noteq> 0" and rest: "rest = dropWhile url_char (drop n (c # cs))"
    by (auto simp: match_url_at_def Let_def n_def split: if_splits)
  have "length rest \<le> length (drop n (c # cs))"
    unfolding rest by (rule length_dropWhile_le)
  also have "\<dots> < length (c # cs)" using n by simp
  finally show ?case by simp
qed

section \<open>The extractor: \<^verbatim>\<open>extract_sites_from_text\<close>, lines 50 to 76\<close>

text \<open>
  \<^verbatim>\<open>json.loads\<close> is the parameter \<open>loads\<close>: it returns a value or raises. The two shape tests
  of lines 53 to 57: a dict whose key \<^verbatim>\<open>sites\<close> holds a list, or a list.
\<close>

definition shape_sites :: "json \<Rightarrow> json list option" where
  "shape_sites obj =
     (case obj of
        JObj kvs \<Rightarrow> (case dict_get kvs ''sites'' of Some (JArr xs) \<Rightarrow> Some xs | _ \<Rightarrow> None)
      | JArr xs \<Rightarrow> Some xs
      | _ \<Rightarrow> None)"

text \<open>
  The first \<^verbatim>\<open>try\<close> block (lines 51 to 59): \<open>Some\<close> is a \<^verbatim>\<open>return\<close> inside the block,
  \<open>None\<close> is leaving the block without one, by \<^verbatim>\<open>except Exception: pass\<close> or because neither
  test held.
\<close>

definition strict_parse :: "(string \<Rightarrow> pyerror + json) \<Rightarrow> string \<Rightarrow> json list option" where
  "strict_parse loads txt =
     (case loads txt of
        Inl e \<Rightarrow> None
      | Inr obj \<Rightarrow> shape_sites obj)"

text \<open>
  Lines 61 to 76: the search, the parse of the captured text and, when that parse raised,
  the parse of the repaired text. The repair is inside the handler of the first parse: a
  capture that parses to something else than a list is not repaired.
\<close>

definition regex_recover :: "(string \<Rightarrow> pyerror + json) \<Rightarrow> string \<Rightarrow> pyerror + json list" where
  "regex_recover loads txt =
     (case SITES_REGEX_search txt of
        None \<Rightarrow> Inr []
      | Some arr_text \<Rightarrow>
          (case loads arr_text of
             Inr arr \<Rightarrow> (case arr of JArr xs \<Rightarrow> Inr xs | _ \<Rightarrow> Inr [])
           | Inl e \<Rightarrow>
               (let cleaned = strip_trailing_commas arr_text
                in case loads cleaned of
                     Inr arr \<Rightarrow> (case arr of JArr xs \<Rightarrow> Inr xs | _ \<Rightarrow> Inr [])
                   | Inl e' \<Rightarrow> Inr [])))"

definition extract_sites_from_text :: "(string \<Rightarrow> pyerror + json) \<Rightarrow> string \<Rightarrow> pyerror + json list" where
  "extract_sites_from_text loads txt =
     (case strict_parse loads txt of
        Some sites \<Rightarrow> Inr sites
      | None \<Rightarrow> regex_recover loads txt)"

section \<open>One URL: \<^verbatim>\<open>fetch_and_extract\<close>, lines 79 to 110\<close>

text \<open>
  The response of \<^verbatim>\<open>requests.get\<close>: its status, its \<^verbatim>\<open>text\<close> and what \<^verbatim>\<open>r.json()\<close> does
  (it returns a value or raises); the field \<open>resp_text\<close> is \<^verbatim>\<open>r.text\<close>.
\<close>

record response =
  status_code :: int
  resp_text :: string
  json_body :: "pyerror + json"

text \<open>The tests on the value of \<^verbatim>\<open>r.json()\<close>, lines 91 to 98.\<close>

definition response_sites :: "json \<Rightarrow> json list option" where
  "response_sites obj =
     (case shape_sites obj of
        Some xs \<Rightarrow> Some xs
      | None \<Rightarrow>
          (case obj of
             JObj kvs \<Rightarrow> (case dict_get kvs ''sites'' of Some (JArr xs) \<Rightarrow> Some xs | _ \<Rightarrow> None)
           | _ \<Rightarrow> None))"

text \<open>
  The result is the list of the requests issued (none or one) and what the function returns
  or raises. \<open>get\<close> is \<^verbatim>\<open>requests.get\<close> with the headers and the timeout of the source: it
  returns a response or raises (a timeout is one of its exceptions). The calls of
  \<^verbatim>\<open>print\<close> are not modelled.
\<close>

definition fetch_and_extract ::
  "(json \<Rightarrow> pyerror + response) \<Rightarrow> (string \<Rightarrow> pyerror + json) \<Rightarrow> json
    \<Rightarrow> json list \<times> (pyerror + json list)" where
  "fetch_and_extract get loads url =
     (if \<not> py_truthy url then ([], Inr [])
      else
        ([url],
         case get url of
           Inl e \<Rightarrow> Inr []
         | Inr r \<Rightarrow>
             if status_code r \<noteq> 200 then Inr []
             else
               (case (case json_body r of Inl e \<Rightarrow> None | Inr obj \<Rightarrow> response_sites obj) of
                  Some sites \<Rightarrow> Inr sites
                | None \<Rightarrow>
                    (case extract_sites_from_text loads (resp_text r) of
                       Inl e \<Rightarrow> Inr []
                     | Inr sites \<Rightarrow> if sites \<noteq> [] then Inr sites else Inr []))))"

section \<open>\<^verbatim>\<open>main\<close>: the URLs of the index, lines 126 to 139\<close>

definition py_or :: "json \<Rightarrow> json \<Rightarrow> json" where
  "py_or a b = (if py_truthy a then a else b)"

text \<open>\<^verbatim>\<open>entry.get(k)\<close>: \<^verbatim>\<open>None\<close> for a missing key.\<close>

definition entry_get :: "(string \<times> json) list \<Rightarrow> string \<Rightarrow> json" where
  "entry_get kvs k = (case dict_get kvs k of None \<Rightarrow> JNull | Some v \<Rightarrow> v)"

text \<open>The body of the loop over \<^verbatim>\<open>data["urls"]\<close>: what one entry appends to \<^verbatim>\<open>urls\<close>.\<close>

definition resolve_entry :: "json \<Rightarrow> json list" where
  "resolve_entry entry =
     (case entry of
        JObj kvs \<Rightarrow>
          (let u = py_or (py_or (entry_get kvs ''url'') (entry_get kvs ''Url'')) (entry_get kvs ''link'')
           in if py_truthy u then [u] else [])
      | JStr s \<Rightarrow> [entry]
      | _ \<Rightarrow> [])"

definition urls_is_list :: "json \<Rightarrow> bool" where
  "urls_is_list data =
     (case data of
        JObj kvs \<Rightarrow> (case dict_get kvs ''urls'' of Some (JArr entries) \<Rightarrow> True | _ \<Rightarrow> False)
      | _ \<Rightarrow> False)"

definition resolve_urls :: "json \<Rightarrow> json list" where
  "resolve_urls data =
     (case data of
        JObj kvs \<Rightarrow>
          (case dict_get kvs ''urls'' of
             Some (JArr entries) \<Rightarrow> concat (map resolve_entry entries)
           | _ \<Rightarrow> map JStr (url_finditer (dumps True False data)))
      | _ \<Rightarrow> map JStr (url_finditer (dumps True False data)))"

section \<open>\<^verbatim>\<open>main\<close>: the merge loop, lines 143 to 156\<close>

text \<open>
  The state of the loop: \<^verbatim>\<open>merged\<close>, \<^verbatim>\<open>seen\<close> and \<^verbatim>\<open>processed\<close> of the source, and the
  two effects of the loop, the URLs handed to \<^verbatim>\<open>requests.get\<close> and the delays handed to
  \<^verbatim>\<open>time.sleep\<close>, each in the order of the calls.
\<close>

record merge_state =
  merged :: "json list"
  seen :: "string set"
  processed :: nat
  requests :: "json list"
  sleeps :: "rat list"

record args =
  arg_delay :: rat
  arg_max :: int

definition init_state :: merge_state where
  "init_state = \<lparr>merged = [], seen = {}, processed = 0, requests = [], sleeps = []\<rparr>"

text \<open>\<^verbatim>\<open>time.sleep(d)\<close> raises \<^verbatim>\<open>ValueError\<close> for a negative \<^verbatim>\<open>d\<close>.\<close>

definition time_sleep :: "rat \<Rightarrow> rat list \<Rightarrow> pyerror + rat list" where
  "time_sleep d slog = (if d < 0 then Inl ValueError else Inr (slog @ [d]))"

text \<open>The inner loop, lines 150 to 154.\<close>

fun accumulate :: "json list \<Rightarrow> merge_state \<Rightarrow> merge_state" where
  "accumulate [] st = st"
| "accumulate (s # ss) st =
     (let key = normalize_site s
      in accumulate ss
           (if key \<notin> seen st
            then st\<lparr>seen := insert key (seen st), merged := merged st @ [s]\<rparr>
            else st))"

text \<open>
  The outer loop. \<open>net i\<close> is what \<^verbatim>\<open>requests.get\<close> does in iteration \<open>i\<close> of the loop, so
  that a URL fetched twice may be answered differently.
\<close>

fun merge_loop ::
  "(nat \<Rightarrow> json \<Rightarrow> pyerror + response) \<Rightarrow> (string \<Rightarrow> pyerror + json) \<Rightarrow> args
    \<Rightarrow> json list \<Rightarrow> merge_state \<Rightarrow> pyerror + merge_state" where
  "merge_loop net loads a [] st = Inr st"
| "merge_loop net loads a (u # us) st =
     (if arg_max a \<noteq> 0 \<and> int (processed st) \<ge> arg_max a then Inr st
      else
        (case fetch_and_extract (net (processed st)) loads u of
           (reqs, Inl e) \<Rightarrow> Inl e
         | (reqs, Inr sites) \<Rightarrow>
             (let st1 = accumulate sites (st\<lparr>requests := requests st @ reqs\<rparr>);
                  st2 = st1\<lparr>processed := processed st1 + 1\<rparr>
              in case time_sleep (arg_delay a) (sleeps st2) of
                   Inl e \<Rightarrow> Inl e
                 | Inr slog \<Rightarrow> merge_loop net loads a us (st2\<lparr>sleeps := slog\<rparr>))))"

text \<open>\<^verbatim>\<open>main\<close> from the loaded index to the document written: \<^verbatim>\<open>{"sites": merged}\<close>.\<close>

definition main_merge ::
  "(nat \<Rightarrow> json \<Rightarrow> pyerror + response) \<Rightarrow> (string \<Rightarrow> pyerror + json) \<Rightarrow> args
    \<Rightarrow> json \<Rightarrow> pyerror + merge_state" where
  "main_merge net loads a data = merge_loop net loads a (resolve_urls data) init_state"

definition main_output :: "merge_state \<Rightarrow> json" where
  "main_output st = JObj [(''sites'', JArr (merged st))]"

section \<open>The decoder: \<^verbatim>\<open>json.loads\<close>\<close>

text \<open>
  A model of \<^verbatim>\<open>json.loads\<close> on a \<^verbatim>\<open>str\<close>, after the scanner of \<^verbatim>\<open>json.decoder\<close> and
  \<^verbatim>\<open>json.scanner\<close>. The properties of the extractor are proved for every \<open>loads\<close>; this decoder
  is what the examples are run with. Three things are outside it. The conversion of a number
  with a fraction or an exponent is the parameter \<open>float_of\<close>: it gives the text that
  \<^verbatim>\<open>json.dumps\<close> writes for the \<^verbatim>\<open>float\<close>. An escape \<^verbatim>\<open>\uXXXX\<close> of a code point above 255 has no
  character in the model and makes the decoder give up. The interpreter's limits on the depth
  of recursion and on the digits of an integer are not modelled: the fuel of the decoder, one
  more than the length of the text, is never used up, since every call consumes a character
  that no other call consumes.
\<close>

definition json_ws :: "char \<Rightarrow> bool" where
  "json_ws c = (c = CHR '' '' \<or> c = CHR 0x09 \<or> c = CHR 0x0A \<or> c = CHR 0x0D)"

definition skip_ws :: "string \<Rightarrow> string" where
  "skip_ws s = dropWhile json_ws s"

definition is_digit :: "char \<Rightarrow> bool" where
  "is_digit c = (CHR ''0'' \<le> c \<and> c \<le> CHR ''9'')"

definition hex_value :: "char \<Rightarrow> nat option" where
  "hex_value c =
     (if CHR ''0'' \<le> c \<and> c \<le> CHR ''9'' then Some (of_char c - 48)
      else if CHR ''a'' \<le> c \<and> c \<le> CHR ''f'' then Some (of_char c - 87)
      else if CHR ''A'' \<le> c \<and> c \<le> CHR ''F'' then Some (of_char c - 55)
      else None)"

text \<open>The four hexadecimal digits of \<^verbatim>\<open>\uXXXX\<close>.\<close>

definition decode_uXXXX :: "char \<Rightarrow> char \<Rightarrow> char \<Rightarrow> char \<Rightarrow> nat option" where
  "decode_uXXXX a b c d =
     (case (hex_value a, hex_value b, hex_value c, hex_value d) of
        (Some w, Some x, Some y, Some z) \<Rightarrow> Some (4096 * w + 256 * x + 16 * y + z)
      | _ \<Rightarrow> None)"

text \<open>The character behind a backslash: \<^verbatim>\<open>BACKSLASH\<close> of \<^verbatim>\<open>json.decoder\<close>.\<close>

definition unescape :: "char \<Rightarrow> char option" where
  "unescape e =
     (if e = CHR 0x22 then Some (CHR 0x22)
      else if e = CHR 0x5C then Some (CHR 0x5C)
      else if e = CHR ''/'' then Some (CHR ''/'')
      else if e = CHR ''b'' then Some (CHR 0x08)
      else if e = CHR ''f'' then Some (CHR 0x0C)
      else if e = CHR ''n'' then Some (CHR 0x0A)
      else if e = CHR ''r'' then Some (CHR 0x0D)
      else if e = CHR ''t'' then Some (CHR 0x09)
      else None)"

definition cons_result :: "char \<Rightarrow> pyerror + (string \<times> string) \<Rightarrow> pyerror + (string \<times> string)" where
  "cons_result c res = (case res of Inl e \<Rightarrow> Inl e | Inr (s, rest) \<Rightarrow> Inr (c # s, rest))"

text \<open>
  \<^verbatim>\<open>scanstring\<close> in strict mode, from behind the opening quote: the string and the text behind
  its closing quote. A control character, an unknown escape and a missing closing quote raise.
\<close>

fun scanstring :: "string \<Rightarrow> pyerror + (string \<times> string)" where
  "scanstring [] = Inl JSONDecodeError"
| "scanstring [c] = (if c = CHR 0x22 then Inr ([], []) else Inl JSONDecodeError)"
| "scanstring (c # e # cs) =
     (if c = CHR 0x22 then Inr ([], e # cs)
      else if c = CHR 0x5C then
        (if e = CHR ''u'' then
           (case cs of
              h1 # h2 # h3 # h4 # r \<Rightarrow>
                (case decode_uXXXX h1 h2 h3 h4 of
                   None \<Rightarrow> Inl JSONDecodeError
                 | Some n \<Rightarrow> if n < 256 then cons_result (char_of n) (scanstring r)
                            else Inl OutsideModel)
            | _ \<Rightarrow> Inl JSONDecodeError)
         else
           (case unescape e of
              None \<Rightarrow> Inl JSONDecodeError
            | Some ch \<Rightarrow> cons_result ch (scanstring cs)))
      else if (of_char c :: nat) < 0x20 then Inl JSONDecodeError
      else cons_result c (scanstring (e # cs)))"

text \<open>
  \<^verbatim>\<open>NUMBER_RE\<close>: \<^verbatim>\<open>(-?(?:0|[1-9]\d*))(\.\d+)?([eE][-+]?\d+)?\<close>. Each part gives what it matched
  and the text behind it; the fraction and the exponent may match nothing.
\<close>

definition integer_part :: "string \<Rightarrow> (string \<times> string) option" where
  "integer_part s =
     (let sign = (if s \<noteq> [] \<and> hd s = CHR ''-'' then ''-'' else []);
          r = drop (length sign) s
      in case r of
           [] \<Rightarrow> None
         | d # r1 \<Rightarrow>
             if \<not> is_digit d then None
             else if d = CHR ''0'' then Some (sign @ [d], r1)
             else Some (sign @ d # takeWhile is_digit r1, dropWhile is_digit r1))"

definition frac_part :: "string \<Rightarrow> string \<times> string" where
  "frac_part s =
     (case s of
        c # d # r \<Rightarrow>
          if c = CHR ''.'' \<and> is_digit d
          then (c # d # takeWhile is_digit r, dropWhile is_digit r)
          else ([], s)
      | _ \<Rightarrow> ([], s))"

definition exp_part :: "string \<Rightarrow> string \<times> string" where
  "exp_part s =
     (case s of
        [] \<Rightarrow> ([], s)
      | e # r \<Rightarrow>
          if e \<noteq> CHR ''e'' \<and> e \<noteq> CHR ''E'' then ([], s)
          else
            (let sign = (if r \<noteq> [] \<and> (hd r = CHR ''+'' \<or> hd r = CHR ''-'') then [hd r] else []);
                 ds = drop (length sign) r
             in if ds \<noteq> [] \<and> is_digit (hd ds)
                then (e # sign @ takeWhile is_digit ds, dropWhile is_digit ds)
                else ([], s)))"

text \<open>\<^verbatim>\<open>int(text)\<close> for the text of an integer part.\<close>

definition digits_value :: "string \<Rightarrow> nat" where
  "digits_value ds = foldl (\<lambda>n c. 10 * n + (of_char c - 48)) 0 ds"

definition int_of_text :: "string \<Rightarrow> int" where
  "int_of_text s =
     (if s \<noteq> [] \<and> hd s = CHR ''-'' then - int (digits_value (tl s)) else int (digits_value s))"

definition match_number :: "(string \<Rightarrow> string) \<Rightarrow> string \<Rightarrow> (json \<times> string) option" where
  "match_number float_of s =
     (case integer_part s of
        None \<Rightarrow> None
      | Some (ip, r1) \<Rightarrow>
          (case frac_part r1 of
             (fr, r2) \<Rightarrow>
               (case exp_part r2 of
                  (ex, r3) \<Rightarrow>
                    if fr \<noteq> [] \<or> ex \<noteq> [] then Some (JFloat (float_of (ip @ fr @ ex)), r3)
                    else Some (JInt (int_of_text ip), r3))))"

text \<open>\<^verbatim>\<open>d[key] = value\<close>: a key already there keeps its place and takes the new value.\<close>

fun dict_set :: "(string \<times> json) list \<Rightarrow> string \<Rightarrow> json \<Rightarrow> (string \<times> json) list" where
  "dict_set [] k v = [(k, v)]"
| "dict_set ((k', v') # kvs) k v =
     (if k' = k then (k, v) # kvs else (k', v') # dict_set kvs k v)"

text \<open>
  \<^verbatim>\<open>scan_once\<close>, \<^verbatim>\<open>JSONArray\<close> and \<^verbatim>\<open>JSONObject\<close>. \<open>parse_value\<close> reads one value at the start
  of the text. \<open>parse_array_items\<close> is the loop of \<^verbatim>\<open>JSONArray\<close>, at the start of an item;
  \<open>parse_object_items\<close> is the loop of \<^verbatim>\<open>JSONObject\<close>, at the quote of a key.
\<close>

fun parse_value :: "(string \<Rightarrow> string) \<Rightarrow> nat \<Rightarrow> string \<Rightarrow> pyerror + (json \<times> string)"
  and parse_array_items ::
    "(string \<Rightarrow> string) \<Rightarrow> nat \<Rightarrow> json list \<Rightarrow> string \<Rightarrow> pyerror + (json \<times> string)"
  and parse_object_items ::
    "(string \<Rightarrow> string) \<Rightarrow> nat \<Rightarrow> (string \<times> json) list \<Rightarrow> string \<Rightarrow> pyerror + (json \<times> string)"
where
  "parse_value fo 0 s = Inl RecursionError"
| "parse_value fo (Suc n) [] = Inl JSONDecodeError"
| "parse_value fo (Suc n) (c # cs) =
     (if c = CHR 0x22 then
        (case scanstring cs of Inl e \<Rightarrow> Inl e | Inr (str, r) \<Rightarrow> Inr (JStr str, r))
      else if c = CHR ''{'' then
        (if skip_ws cs \<noteq> [] \<and> hd (skip_ws cs) = CHR ''}'' then Inr (JObj [], tl (skip_ws cs))
         else parse_object_items fo n [] (skip_ws cs))
      else if c = CHR ''['' then
        (if skip_ws cs \<noteq> [] \<and> hd (skip_ws cs) = CHR '']'' then Inr (JArr [], tl (skip_ws cs))
         else parse_array_items fo n [] (skip_ws cs))
      else if take 4 (c # cs) = ''null'' then Inr (JNull, drop 4 (c # cs))
      else if take 4 (c # cs) = ''true'' then Inr (JBool True, drop 4 (c # cs))
      else if take 5 (c # cs) = ''false'' then Inr (JBool False, drop 5 (c # cs))
      else
        (case match_number fo (c # cs) of
           Some res \<Rightarrow> Inr res
         | None \<Rightarrow>
             if take 3 (c # cs) = ''NaN'' then Inr (JFloat ''NaN'', drop 3 (c # cs))
             else if take 8 (c # cs) = ''Infinity'' then Inr (JFloat ''Infinity'', drop 8 (c # cs))
             else if take 9 (c # cs) = ''-Infinity'' then Inr (JFloat ''-Infinity'', drop 9 (c # cs))
             else Inl JSONDecodeError))"
| "parse_array_items fo 0 acc s = Inl RecursionError"
| "parse_array_items fo (Suc n) acc s =
     (case parse_value fo n s of
        Inl e \<Rightarrow> Inl e
      | Inr (v, r) \<Rightarrow>
          (case skip_ws r of
             [] \<Rightarrow> Inl JSONDecodeError
           | d # r' \<Rightarrow>
               if d = CHR '']'' then Inr (JArr (acc @ [v]), r')
               else if d = CHR '','' then parse_array_items fo n (acc @ [v]) (skip_ws r')
               else Inl JSONDecodeError))"
| "parse_object_items fo 0 acc s = Inl RecursionError"
| "parse_object_items fo (Suc n) acc s =
     (case s of
        [] \<Rightarrow> Inl JSONDecodeError
      | q # cs \<Rightarrow>
          if q \<noteq> CHR 0x22 then Inl JSONDecodeError
          else
            (case scanstring cs of
               Inl e \<Rightarrow> Inl e
             | Inr (key, r) \<Rightarrow>
                 (case skip_ws r of
                    [] \<Rightarrow> Inl JSONDecodeError
                  | colon # r1 \<Rightarrow>
                      if colon \<noteq> CHR '':'' then Inl JSONDecodeError
                      else
                        (case parse_value fo n (skip_ws r1) of
                           Inl e \<Rightarrow> Inl e
                         | Inr (v, r2) \<Rightarrow>
                             (case skip_ws r2 of
                                [] \<Rightarrow> Inl JSONDecodeError
                              | d # r3 \<Rightarrow>
                                  if d = CHR ''}'' then Inr (JObj (dict_set acc key v), r3)
                                  else if d = CHR '','' then
                                    parse_object_items fo n (dict_set acc key v) (skip_ws r3)
                                  else Inl JSONDecodeError)))))"

text \<open>
  \<^verbatim>\<open>JSONDecoder.decode\<close>: white space, one value, white space, and the end of the text;
  anything else behind the value raises (\<^verbatim>\<open>Extra data\<close>).
\<close>

definition json_loads :: "(string \<Rightarrow> string) \<Rightarrow> string \<Rightarrow> pyerror + json" where
  "json_loads float_of s =
     (case parse_value float_of (Suc (length s)) (skip_ws s) of
        Inl e \<Rightarrow> Inl e
      | Inr (v, r) \<Rightarrow> if skip_ws r = [] then Inr v else Inl JSONDecodeError)"

section \<open>Well-formed values and structural equality\<close>

text \<open>
  The text that \<^verbatim>\<open>json.dumps\<close> writes for a \<^verbatim>\<open>float\<close>: it starts with a digit, a minus sign or
  the first letter of \<^verbatim>\<open>NaN\<close> or \<^verbatim>\<open>Infinity\<close>, it is made of the characters of
  \<^verbatim>\<open>float.__repr__\<close> and of these two names, and it has a point, an exponent or one of the
  names, which no integer has.
\<close>

definition float_char :: "char \<Rightarrow> bool" where
  "float_char c = (c \<in> set ''0123456789+-.eNaInfity'')"

definition float_text :: "string \<Rightarrow> bool" where
  "float_text r =
     (r \<noteq> [] \<and> hd r \<in> set ''-0123456789NI'' \<and> list_all float_char r
      \<and> list_ex (\<lambda>c. c \<in> set ''.eNI'') r)"

text \<open>
  The values that \<^verbatim>\<open>json.loads\<close> can return: the keys of every dict are distinct, and every
  \<^verbatim>\<open>float\<close> is given by its text.
\<close>

fun wf_json :: "json \<Rightarrow> bool" where
  "wf_json (JFloat r) = float_text r"
| "wf_json (JArr xs) = list_all wf_json xs"
| "wf_json (JObj kvs) = (distinct (map fst kvs) \<and> list_all (\<lambda>kv. wf_json (snd kv)) kvs)"
| "wf_json v = True"

text \<open>
  Structural equality, in the words of the specification: scalars are equal as JSON scalars
  (an integer is not a float, a boolean is not a number), arrays are equal item by item in
  their order, and objects are equal when they have the same keys and under each key equal
  values, the order of the keys being of no account.
\<close>

fun json_eq :: "json \<Rightarrow> json \<Rightarrow> bool" where
  "json_eq JNull JNull = True"
| "json_eq (JBool a) (JBool b) = (a = b)"
| "json_eq (JInt a) (JInt b) = (a = b)"
| "json_eq (JFloat a) (JFloat b) = (a = b)"
| "json_eq (JStr a) (JStr b) = (a = b)"
| "json_eq (JArr xs) (JArr ys) = list_all2 json_eq xs ys"
| "json_eq (JObj xs) (JObj ys) =
     (set (map fst xs) = set (map fst ys)
      \<and> (\<forall>(k, v) \<in> set xs. \<forall>(k', v') \<in> set ys. k = k' \<longrightarrow> json_eq v v'))"
| "json_eq a b = False"

text \<open>
  Two devices of the proofs. \<open>canon\<close> puts the keys of every object in order, so that
  writing a value with \<^verbatim>\<open>sort_keys\<close> is writing its \<open>canon\<close> without. \<open>delimited\<close> holds of
  what can stand behind a value in the text written: nothing, a comma, or a closing bracket
  or brace.
\<close>

fun canon :: "json \<Rightarrow> json" where
  "canon (JArr xs) = JArr (map canon xs)"
| "canon (JObj kvs) = JObj (sort_key fst (map (\<lambda>kv. (fst kv, canon (snd kv))) kvs))"
| "canon v = v"

definition delimited :: "string \<Rightarrow> bool" where
  "delimited r = (r = [] \<or> hd r = CHR '','' \<or> hd r = CHR '']'' \<or> hd r = CHR ''}'')"

text \<open>
  The kind of token a value is written as, told by its first character; an integer and a float
  may start alike.
\<close>

fun kind :: "json \<Rightarrow> nat" where
  "kind JNull = 0"
| "kind (JBool b) = 1"
| "kind (JInt i) = 2"
| "kind (JFloat r) = 2"
| "kind (JStr s) = 3"
| "kind (JArr xs) = 4"
| "kind (JObj kvs) = 5"

text \<open>The characters of the text of a number.\<close>

definition num_char :: "char \<Rightarrow> bool" where
  "num_char c = (float_char c \<or> is_digit c \<or> c = CHR ''-'')"

text \<open>The kind of token that a first character announces.\<close>

definition tok_kind :: "char \<Rightarrow> nat" where
  "tok_kind c =
     (if c = CHR ''n'' then 0
      else if c = CHR ''t'' \<or> c = CHR ''f'' then 1
      else if c = CHR 0x22 then 3
      else if c = CHR ''['' then 4
      else if c = CHR ''{'' then 5
      else 2)"

section \<open>Failures and sample responses\<close>

text \<open>
  A failure on one URL, as the claims speak of it: \<^verbatim>\<open>requests.get\<close> raises (a timeout is one
  of its exceptions), the status is not 200, or \<^verbatim>\<open>r.json()\<close> gives no list of sites and the
  extractor finds nothing in the text.
\<close>

definition fetch_failure :: "(json \<Rightarrow> pyerror + response) \<Rightarrow> (string \<Rightarrow> pyerror + json) \<Rightarrow> json \<Rightarrow> bool" where
  "fetch_failure get loads url =
     (case get url of
        Inl e \<Rightarrow> True
      | Inr r \<Rightarrow>
          status_code r \<noteq> 200 \<or>
          ((case json_body r of Inl e \<Rightarrow> True | Inr obj \<Rightarrow> response_sites obj = None) \<and>
           extract_sites_from_text loads (resp_text r) = Inr []))"

definition five_urls :: "json list" where
  "five_urls = [JStr ''http://x/1'', JStr ''http://x/2'', JStr ''http://x/3'',
                JStr ''http://x/4'', JStr ''http://x/5'']"

definition ok_response :: "json \<Rightarrow> response" where
  "ok_response v = \<lparr>status_code = 200, resp_text = dumps True False v, json_body = Inr v\<rparr>"

definition not_found :: response where
  "not_found = \<lparr>status_code = 404, resp_text = ''Not Found'', json_body = Inl JSONDecodeError\<rparr>"

text \<open>An index without a \<^verbatim>\<open>urls\<close> list, in which a URL occurs twice.\<close>

definition twice_index :: json where
  "twice_index = JObj [(''a'', JStr ''http://x/1''),
     (''b'', JArr [JStr ''http://x/1 twice'', JStr ''see https://y/2, or not'']), (''urls'', JInt 3)]"

text \<open>A site, the same site with its keys in another order, and a site with another value.\<close>

definition site_ab :: json where
  "site_ab = JObj [(''a'', JInt 1), (''b'', JArr [JNull, JStr ''x'', JFloat ''1.5''])]"

definition site_ba :: json where
  "site_ba = JObj [(''b'', JArr [JNull, JStr ''x'', JFloat ''1.5'']), (''a'', JInt 1)]"

definition site_other :: json where
  "site_other = JObj [(''a'', JInt 1), (''b'', JArr [JNull, JStr ''y'', JFloat ''1.5''])]"

text \<open>Two responses: the second repeats a site of the first with its keys in another order.\<close>

definition two_answers :: "nat \<Rightarrow> json \<Rightarrow> pyerror + response" where
  "two_answers i u =
     (if i = 0 then Inr (ok_response (JObj [(''sites'', JArr [site_ab, JInt 7])]))
      else Inr (ok_response (JArr [site_ba, site_other, JInt 7])))"


section \<open>Index resolution as the specification words it\<close>

text \<open>
  The specification takes, for an object entry, the first value that is present among the
  keys \<^verbatim>\<open>url\<close>, \<^verbatim>\<open>Url\<close>, \<^verbatim>\<open>link\<close>, and skips the entries that have none of these keys.
  \<open>first_present\<close> and \<open>spec_resolve_entry\<close> follow these words; they are compared with
  \<open>resolve_entry\<close>, which follows the source.
\<close>

fun first_present :: "(string \<times> json) list \<Rightarrow> string list \<Rightarrow> json option" where
  "first_present kvs [] = None"
| "first_present kvs (k # ks) =
     (case dict_get kvs k of Some v \<Rightarrow> Some v | None \<Rightarrow> first_present kvs ks)"

definition spec_resolve_entry :: "json \<Rightarrow> json list" where
  "spec_resolve_entry entry =
     (case entry of
        JStr s \<Rightarrow> [entry]
      | JObj kvs \<Rightarrow>
          (case first_present kvs [''url'', ''Url'', ''link''] of Some v \<Rightarrow> [v] | None \<Rightarrow> [])
      | _ \<Rightarrow> [])"

text \<open>
  What the source takes: the first value among the keys that is present and true in
  Python's sense.
\<close>

fun first_truthy :: "(string \<times> json) list \<Rightarrow> string list \<Rightarrow> json option" where
  "first_truthy kvs [] = None"
| "first_truthy kvs (k # ks) =
     (case dict_get kvs k of
        Some v \<Rightarrow> if py_truthy v then Some v else first_truthy kvs ks
      | None \<Rightarrow> first_truthy kvs ks)"

section \<open>The merged list as the specification words it\<close>

text \<open>
  The entries of a sequence in first-seen order, each key once: an entry is kept when no entry
  before it has its key.
\<close>

definition first_occurrences :: "('a \<Rightarrow> 'k) \<Rightarrow> 'a list \<Rightarrow> 'a list" where
  "first_occurrences key xs =
     map snd (filter (\<lambda>(i, x). key x \<notin> key ` set (take i xs)) (enumerate 0 xs))"

text \<open>
  What \<^verbatim>\<open>fetch_and_extract\<close> returns for a URL, and the entries that the loop is handed for
  the URLs \<open>us\<close> from iteration \<open>i\<close> on: the list of each URL in turn, each in its own order.
\<close>

definition sites_of ::
  "(json \<Rightarrow> pyerror + response) \<Rightarrow> (string \<Rightarrow> pyerror + json) \<Rightarrow> json \<Rightarrow> json list" where
  "sites_of get loads u =
     (case snd (fetch_and_extract get loads u) of Inr sites \<Rightarrow> sites | Inl e \<Rightarrow> [])"

definition fetched ::
  "(nat \<Rightarrow> json \<Rightarrow> pyerror + response) \<Rightarrow> (string \<Rightarrow> pyerror + json) \<Rightarrow> nat \<Rightarrow> json list
    \<Rightarrow> json list" where
  "fetched net loads i us = concat (map (\<lambda>(j, u). sites_of (net j) loads u) (enumerate i us))"

text \<open>
  A device of the proofs: the entries of a sequence whose key is neither in \<open>S\<close> nor the key of
  an entry before.
\<close>

fun new_entries :: "('a \<Rightarrow> 'k) \<Rightarrow> 'k set \<Rightarrow> 'a list \<Rightarrow> 'a list" where
  "new_entries key S [] = []"
| "new_entries key S (x # xs) =
     (if key x \<in> S then new_entries key S xs else x # new_entries key (insert (key x) S) xs)"

section \<open>The matches of the URL pattern as the specification words them\<close>

text \<open>
  The specification scans the serialized index for the tokens made of a scheme, \<^verbatim>\<open>http://\<close> or
  \<^verbatim>\<open>https://\<close>, and a run of characters that are not white space, not a quote and not a
  comma, and returns all of them in the order in which they appear. The white space is spelt
  out here character by character, apart from the \<open>is_space\<close> of the source's pattern.
\<close>

definition white_space :: "char \<Rightarrow> bool" where
  "white_space c =
     (c \<in> {CHR 0x09, CHR 0x0A, CHR 0x0B, CHR 0x0C, CHR 0x0D, CHR 0x1C, CHR 0x1D, CHR 0x1E,
            CHR 0x1F, CHR '' '', CHR 0x85, CHR 0xA0})"

definition token_char :: "char \<Rightarrow> bool" where
  "token_char c = (\<not> white_space c \<and> c \<noteq> CHR 0x27 \<and> c \<noteq> CHR 0x22 \<and> c \<noteq> CHR '','')"

text \<open>A token: a scheme and a run, not empty, of characters of a token.\<close>

definition url_token :: "string \<Rightarrow> bool" where
  "url_token m =
     (\<exists>body. body \<noteq> [] \<and> list_all token_char body
        \<and> (m = ''http://'' @ body \<or> m = ''https://'' @ body))"

text \<open>A token starts at the beginning of the text: a scheme and one character of a token.\<close>

definition token_starts :: "string \<Rightarrow> bool" where
  "token_starts t =
     (\<exists>c r. token_char c \<and> (t = ''http://'' @ c # r \<or> t = ''https://'' @ c # r))"

text \<open>
  \<open>tokens_of s ms\<close>: \<open>ms\<close> are all the tokens of the text \<open>s\<close>, in order. Either no token
  starts anywhere in the text and there is none; or the text is a gap in which no token starts,
  a token that runs as far as its characters go, and a rest whose tokens follow. A token that
  occurs twice is there twice.
\<close>

inductive tokens_of :: "string \<Rightarrow> string list \<Rightarrow> bool" where
  no_token: "(\<And>j. j \<le> length s \<Longrightarrow> \<not> token_starts (drop j s)) \<Longrightarrow> tokens_of s []"
| token: "s = gap @ m @ rest \<Longrightarrow> (\<And>j. j < length gap \<Longrightarrow> \<not> token_starts (drop j s))
           \<Longrightarrow> url_token m \<Longrightarrow> rest = [] \<or> \<not> token_char (hd rest)
           \<Longrightarrow> tokens_of rest ms \<Longrightarrow> tokens_of s (m # ms)"

text \<open>
  The characters that \<^verbatim>\<open>json.dumps\<close> writes as they are, and a URL made of them: such a URL
  stands in the serialized index as it is, between its quotes.
\<close>

definition plain_char :: "char \<Rightarrow> bool" where
  "plain_char c =
     (0x20 \<le> (of_char c :: nat) \<and> (of_char c :: nat) \<le> 0x7E \<and> c \<noteq> CHR 0x22 \<and> c \<noteq> CHR 0x5C)"

definition plain_url :: "string \<Rightarrow> bool" where
  "plain_url u = (url_token u \<and> list_all plain_char u)"


section \<open>What the loop does to its counters and logs\<close>

lemma extract_sites_from_text_returns:
  "\<exists>sites. extract_sites_from_text loads txt = Inr sites"
  by (auto simp: extract_sites_from_text_def regex_recover_def Let_def
      split: option.splits sum.splits json.splits)

lemma fetch_and_extract_returns:
  "\<exists>sites. fetch_and_extract get loads u = (if py_truthy u then [u] else [], Inr sites)"
  by (auto simp: fetch_and_extract_def split: option.splits sum.splits)

lemma accumulate_effects [simp]:
  "processed (accumulate sites st) = processed st"
  "requests (accumulate sites st) = requests st"
  "sleeps (accumulate sites st) = sleeps st"
  by (induction sites arbitrary: st) (simp_all add: Let_def)

lemma merge_loop_returns:
  "0 \<le> arg_delay a \<Longrightarrow> \<exists>st'. merge_loop net loads a us st = Inr st'"
proof (induction us arbitrary: st)
  case Nil
  show ?case by simp
next
  case (Cons u us)
  obtain sites where f: "fetch_and_extract (net (processed st)) loads u
      = (if py_truthy u then [u] else [], Inr sites)"
    using fetch_and_extract_returns by blast
  show ?case using Cons by (simp add: f time_sleep_def Let_def)
qed

lemma merge_loop_uncapped:
  assumes "0 \<le> arg_delay a" and "arg_max a = 0" and "merge_loop net loads a us st = Inr st'"
  shows "processed st' = processed st + length us
       \<and> requests st' = requests st @ filter py_truthy us
       \<and> sleeps st' = sleeps st @ replicate (length us) (arg_delay a)"
  using assms
proof (induction us arbitrary: st)
  case Nil
  then show ?case by simp
next
  case (Cons u us)
  obtain sites where f: "fetch_and_extract (net (processed st)) loads u
      = (if py_truthy u then [u] else [], Inr sites)"
    using fetch_and_extract_returns by blast
  let ?st = "(accumulate sites (st\<lparr>requests := requests st @ (if py_truthy u then [u] else [])\<rparr>))
      \<lparr>processed := processed st + 1, sleeps := sleeps st @ [arg_delay a]\<rparr>"
  have "merge_loop net loads a us ?st = Inr st'"
    using Cons.prems by (simp add: f time_sleep_def Let_def)
  from Cons.IH [OF Cons.prems(1,2) this] show ?case
    by (simp add: replicate_append_same)
qed

lemma merge_loop_capped:
  assumes "0 \<le> arg_delay a" and "arg_max a = int n" and "0 < n" and "processed st \<le> n"
    and "merge_loop net loads a us st = Inr st'"
  shows "processed st' = min n (processed st + length us)
       \<and> requests st' = requests st @ filter py_truthy (take (n - processed st) us)
       \<and> sleeps st' = sleeps st @ replicate (min (n - processed st) (length us)) (arg_delay a)"
  using assms
proof (induction us arbitrary: st)
  case Nil
  then show ?case by simp
next
  case (Cons u us)
  show ?case
  proof (cases "processed st = n")
    case True
    with Cons.prems show ?thesis by simp
  next
    case False
    with Cons.prems have lt: "processed st < n" by simp
    obtain sites where f: "fetch_and_extract (net (processed st)) loads u
        = (if py_truthy u then [u] else [], Inr sites)"
      using fetch_and_extract_returns by blast
    let ?st = "(accumulate sites (st\<lparr>requests := requests st @ (if py_truthy u then [u] else [])\<rparr>))
        \<lparr>processed := processed st + 1, sleeps := sleeps st @ [arg_delay a]\<rparr>"
    have run: "merge_loop net loads a us ?st = Inr st'"
      using Cons.prems lt by (simp add: f time_sleep_def Let_def)
    have le: "processed ?st \<le> n" using lt by simp
    obtain m where m: "n - processed st = Suc m" using lt by (cases "n - processed st") auto
    then have m': "n - Suc (processed st) = m" by simp
    from Cons.IH [OF Cons.prems(1,2,3) le run] show ?thesis
      using lt by (simp add: m m' replicate_append_same)
  qed
qed

section \<open>The text of a string is read back in one way only\<close>

lemma hex_digit_inj: "hex_digit a = hex_digit b \<Longrightarrow> a mod 16 = b mod 16"
proof -
  assume h: "hex_digit a = hex_digit b"
  have d: "distinct ''0123456789abcdef''" by simp
  have l: "length ''0123456789abcdef'' = 16" by simp
  have "a mod 16 < length ''0123456789abcdef''" "b mod 16 < length ''0123456789abcdef''"
    by simp_all
  with h d show ?thesis
    unfolding hex_digit_def by (simp only: nth_eq_iff_index_eq)
qed

lemma hex4_inj:
  assumes "hex4 a = hex4 b" and "a < 256" and "b < 256"
  shows "a = b"
proof -
  from assms(1) have 1: "(a div 16) mod 16 = (b div 16) mod 16" and 2: "a mod 16 = b mod 16"
    by (auto simp: hex4_def dest: hex_digit_inj)
  from assms(2,3) have "a div 16 < 16" "b div 16 < 16" by simp_all
  with 1 have "a div 16 = b div 16" by simp
  with 2 show ?thesis by (metis div_mult_mod_eq)
qed

lemma length_hex4 [simp]: "length (hex4 n) = 4"
  by (simp add: hex4_def)

lemma escape_char_cases:
  "escape_char ea c = [c] \<and> c \<noteq> CHR 0x5C \<and> c \<noteq> CHR 0x22
   \<or> (\<exists>k. escape_char ea c = [CHR 0x5C, k] \<and> k \<noteq> CHR ''u''
          \<and> (c, k) \<in> {(CHR 0x5C, CHR 0x5C), (CHR 0x22, CHR 0x22), (CHR 0x08, CHR ''b''),
                (CHR 0x0C, CHR ''f''), (CHR 0x0A, CHR ''n''), (CHR 0x0D, CHR ''r''),
                (CHR 0x09, CHR ''t'')})
   \<or> escape_char ea c = CHR 0x5C # CHR ''u'' # hex4 (of_char c)"
  by (simp add: escape_char_def)

lemma escape_char_prefix_free:
  assumes "escape_char ea c @ x = escape_char ea c' @ y"
  shows "c = c' \<and> x = y"
proof -
  have lt: "(of_char c :: nat) < 256" "(of_char c' :: nat) < 256" by simp_all
  consider
    (plain) "escape_char ea c = [c]" "c \<noteq> CHR 0x5C" "c \<noteq> CHR 0x22"
  | (short) k where "escape_char ea c = [CHR 0x5C, k]" "k \<noteq> CHR ''u''"
      "(c, k) \<in> {(CHR 0x5C, CHR 0x5C), (CHR 0x22, CHR 0x22), (CHR 0x08, CHR ''b''),
                (CHR 0x0C, CHR ''f''), (CHR 0x0A, CHR ''n''), (CHR 0x0D, CHR ''r''),
                (CHR 0x09, CHR ''t'')}"
  | (hex) "escape_char ea c = CHR 0x5C # CHR ''u'' # hex4 (of_char c)"
    using escape_char_cases [of ea c] by blast
  then show ?thesis
  proof cases
    case plain
    consider
      (plain') "escape_char ea c' = [c']" "c' \<noteq> CHR 0x5C" "c' \<noteq> CHR 0x22"
    | (short') k' where "escape_char ea c' = [CHR 0x5C, k']"
    | (hex') "escape_char ea c' = CHR 0x5C # CHR ''u'' # hex4 (of_char c')"
      using escape_char_cases [of ea c'] by blast
    then show ?thesis using assms plain by cases auto
  next
    case short
    consider
      (plain') "escape_char ea c' = [c']" "c' \<noteq> CHR 0x5C" "c' \<noteq> CHR 0x22"
    | (short') k' where "escape_char ea c' = [CHR 0x5C, k']" "k' \<noteq> CHR ''u''"
      "(c', k') \<in> {(CHR 0x5C, CHR 0x5C), (CHR 0x22, CHR 0x22), (CHR 0x08, CHR ''b''),
                (CHR 0x0C, CHR ''f''), (CHR 0x0A, CHR ''n''), (CHR 0x0D, CHR ''r''),
                (CHR 0x09, CHR ''t'')}"
    | (hex') "escape_char ea c' = CHR 0x5C # CHR ''u'' # hex4 (of_char c')"
      using escape_char_cases [of ea c'] by blast
    then show ?thesis using assms short by cases auto
  next
    case hex
    consider
      (plain') "escape_char ea c' = [c']" "c' \<noteq> CHR 0x5C" "c' \<noteq> CHR 0x22"
    | (short') k' where "escape_char ea c' = [CHR 0x5C, k']" "k' \<noteq> CHR ''u''"
    | (hex') "escape_char ea c' = CHR 0x5C # CHR ''u'' # hex4 (of_char c')"
      using escape_char_cases [of ea c'] by blast
    then show ?thesis
    proof cases
      case plain'
      with assms hex show ?thesis by auto
    next
      case short'
      with assms hex show ?thesis by auto
    next
      case hex'
      with assms hex have "hex4 (of_char c) @ x = hex4 (of_char c') @ y" by simp
      then have "hex4 (of_char c) = hex4 (of_char c') \<and> x = y" by simp
      with lt show ?thesis using hex4_inj by (metis of_char_eq_iff)
    qed
  qed
qed

lemma escape_char_hd: "escape_char ea c \<noteq> [] \<and> hd (escape_char ea c) \<noteq> CHR 0x22"
  using escape_char_cases [of ea c] by auto

lemma concat_escape_unique:
  "concat (map (escape_char ea) s) @ CHR 0x22 # r = concat (map (escape_char ea) s') @ CHR 0x22 # r'
    \<Longrightarrow> s = s' \<and> r = r'"
proof (induction s arbitrary: s')
  case Nil
  show ?case
  proof (cases s')
    case Nil
    with Nil.prems show ?thesis by simp
  next
    case (Cons c' t')
    with Nil.prems escape_char_hd [of ea c'] show ?thesis
      by (cases "escape_char ea c'") auto
  qed
next
  case (Cons c t)
  show ?case
  proof (cases s')
    case Nil
    with Cons.prems escape_char_hd [of ea c] show ?thesis
      by (cases "escape_char ea c") auto
  next
    case (Cons c' t')
    with Cons.prems have "escape_char ea c @ (concat (map (escape_char ea) t) @ CHR 0x22 # r)
        = escape_char ea c' @ (concat (map (escape_char ea) t') @ CHR 0x22 # r')"
      by simp
    then have "c = c'" and "concat (map (escape_char ea) t) @ CHR 0x22 # r
        = concat (map (escape_char ea) t') @ CHR 0x22 # r'"
      using escape_char_prefix_free by blast+
    with Cons.IH Cons show ?thesis by blast
  qed
qed

lemma encode_basestring_unique:
  "encode_basestring ea s @ r = encode_basestring ea s' @ r' \<Longrightarrow> s = s' \<and> r = r'"
  using concat_escape_unique [of ea s r s' r'] by (simp add: encode_basestring_def)

section \<open>The text of an integer\<close>

lemma digit_char_value: "(of_char (digit_char n) :: nat) = 48 + n mod 10"
proof -
  have "n mod 10 < 10" by simp
  then consider "n mod 10 = 0" | "n mod 10 = 1" | "n mod 10 = 2" | "n mod 10 = 3" | "n mod 10 = 4"
    | "n mod 10 = 5" | "n mod 10 = 6" | "n mod 10 = 7" | "n mod 10 = 8" | "n mod 10 = 9"
    by atomize_elim arith
  then show ?thesis by cases (simp_all add: digit_char_def)
qed

lemma is_digit_iff: "is_digit c \<longleftrightarrow> 48 \<le> (of_char c :: nat) \<and> (of_char c :: nat) \<le> 57"
  by (simp add: is_digit_def less_eq_char_def)

lemma is_digit_digit_char [simp]: "is_digit (digit_char n)"
proof -
  have "n mod 10 < 10" by simp
  then show ?thesis by (simp add: is_digit_iff digit_char_value)
qed

lemma digits_value_snoc: "digits_value (ds @ [c]) = 10 * digits_value ds + (of_char c - 48)"
  by (simp add: digits_value_def)

lemma digits_value_nat_digits: "digits_value (nat_digits n) = n"
proof (induction n rule: nat_digits.induct)
  case (1 n)
  show ?case
  proof (cases "n < 10")
    case True
    then show ?thesis
      by (subst nat_digits.simps) (simp add: digits_value_def digit_char_value)
  next
    case False
    with 1 have "digits_value (nat_digits (n div 10)) = n div 10" by simp
    with False show ?thesis
      by (subst nat_digits.simps) (simp add: digits_value_snoc digit_char_value)
  qed
qed

lemma nat_digits_inj: "nat_digits a = nat_digits b \<Longrightarrow> a = b"
  by (metis digits_value_nat_digits)

lemma nat_digits_digits: "list_all is_digit (nat_digits n)"
  by (induction n rule: nat_digits.induct) (subst nat_digits.simps, simp)

lemma nat_digits_not_empty: "nat_digits n \<noteq> []"
  by (subst nat_digits.simps) simp

lemma int_repr_inj: "int_repr a = int_repr b \<Longrightarrow> a = b"
proof -
  assume h: "int_repr a = int_repr b"
  have nd: "\<And>n m. CHR ''-'' # nat_digits n \<noteq> nat_digits m"
  proof
    fix n m assume e: "CHR ''-'' # nat_digits n = nat_digits m"
    have "list_all is_digit (nat_digits m)" by (rule nat_digits_digits)
    with e [symmetric] have "is_digit (CHR ''-'')" by simp
    then show False by (simp add: is_digit_iff)
  qed
  show ?thesis
  proof (cases "a < 0"; cases "b < 0")
    assume "a < 0" "b < 0"
    with h have "nat (- a) = nat (- b)" by (simp add: int_repr_def nat_digits_inj)
    with \<open>a < 0\<close> \<open>b < 0\<close> show ?thesis by simp
  next
    assume "a < 0" "\<not> b < 0"
    with h nd show ?thesis by (simp add: int_repr_def)
  next
    assume "\<not> a < 0" "b < 0"
    with h nd [of "nat (- b)" "nat a"] show ?thesis by (simp add: int_repr_def)
  next
    assume "\<not> a < 0" "\<not> b < 0"
    with h have "nat a = nat b" by (simp add: int_repr_def nat_digits_inj)
    with \<open>\<not> a < 0\<close> \<open>\<not> b < 0\<close> show ?thesis by simp
  qed
qed

lemma int_repr_chars: "list_all (\<lambda>c. is_digit c \<or> c = CHR ''-'') (int_repr i)"
  using nat_digits_digits [of "nat i"] nat_digits_digits [of "nat (- i)"]
  by (auto simp: int_repr_def list_all_iff)

lemma int_repr_not_empty: "int_repr i \<noteq> []"
  by (simp add: int_repr_def nat_digits_not_empty)

section \<open>The text written without \<^verbatim>\<open>sort_keys\<close> is read back in one way only\<close>

lemma takeWhile_token:
  "list_all P t \<Longrightarrow> r = [] \<or> \<not> P (hd r) \<Longrightarrow> takeWhile P (t @ r) = t"
  by (induction t) (auto simp: takeWhile_eq_Nil_iff intro: hd_in_set)

lemma token_unique:
  assumes "list_all P t" "list_all P t'" "r = [] \<or> \<not> P (hd r)" "r' = [] \<or> \<not> P (hd r')"
    and "t @ r = t' @ r'"
  shows "t = t' \<and> r = r'"
proof -
  have "t = takeWhile P (t @ r)" using assms(1,3) by (simp add: takeWhile_token)
  also have "\<dots> = takeWhile P (t' @ r')" by (simp add: assms(5))
  also have "\<dots> = t'" using assms(2,4) by (simp add: takeWhile_token)
  finally have "t = t'" .
  with assms(5) show ?thesis by simp
qed

lemma delimited_not_num: "delimited r \<Longrightarrow> r = [] \<or> \<not> num_char (hd r)"
  by (auto simp: delimited_def num_char_def float_char_def is_digit_iff)

lemma int_repr_num: "list_all num_char (int_repr i)"
  using int_repr_chars [of i] by (auto simp: list_all_iff num_char_def)

lemma float_text_num: "float_text t \<Longrightarrow> list_all num_char t"
  by (auto simp: float_text_def list_all_iff num_char_def)

lemma int_repr_not_float: "\<not> float_text (int_repr i)"
proof
  assume "float_text (int_repr i)"
  then obtain c where c: "c \<in> set (int_repr i)" "c \<in> set ''.eNI''"
    by (auto simp: float_text_def list_ex_iff)
  from c(1) int_repr_chars [of i] have "is_digit c \<or> c = CHR ''-''"
    by (auto simp: list_all_iff)
  with c(2) show False by (auto simp: is_digit_iff)
qed

lemma join_Cons: "join sep (x # xs) = x @ (if xs = [] then [] else sep @ join sep xs)"
  by (cases xs) simp_all

lemma hd_dumps:
  assumes "wf_json v"
  shows "\<exists>c cs. dumps ea False v = c # cs \<and>
     (case v of
        JNull \<Rightarrow> c = CHR ''n''
      | JBool b \<Rightarrow> c = CHR ''t'' \<or> c = CHR ''f''
      | JInt i \<Rightarrow> is_digit c \<or> c = CHR ''-''
      | JFloat t \<Rightarrow> c \<in> set ''-0123456789NI''
      | JStr s \<Rightarrow> c = CHR 0x22
      | JArr xs \<Rightarrow> c = CHR ''[''
      | JObj kvs \<Rightarrow> c = CHR ''{'')"
proof (cases v)
  case (JInt i)
  obtain c cs where e: "int_repr i = c # cs" using int_repr_not_empty [of i] by (cases "int_repr i") auto
  with int_repr_chars [of i] have "is_digit c \<or> c = CHR ''-''" by simp
  with JInt e show ?thesis by simp
next
  case (JFloat t)
  with assms obtain c cs where "t = c # cs" "c \<in> set ''-0123456789NI''"
    by (cases t) (auto simp: float_text_def)
  with JFloat show ?thesis by simp
qed (simp_all add: encode_basestring_def)

lemma hd_dumps_not_closing:
  assumes "wf_json v"
  shows "dumps ea False v \<noteq> [] \<and> hd (dumps ea False v) \<noteq> CHR '']''
       \<and> hd (dumps ea False v) \<noteq> CHR ''}''"
  using hd_dumps [OF assms, of ea] by (cases v) (auto simp: is_digit_iff)

lemma join_unique:
  fixes e :: "'a \<Rightarrow> string"
  assumes up: "\<And>x y r r'. x \<in> set xs \<Longrightarrow> W y \<Longrightarrow> delimited r \<Longrightarrow> delimited r'
                 \<Longrightarrow> e x @ r = e y @ r' \<Longrightarrow> x = y \<and> r = r'"
    and hd: "\<And>y. W y \<Longrightarrow> e y \<noteq> [] \<and> hd (e y) \<noteq> cl"
    and W: "list_all W xs" "list_all W ys"
    and cl: "cl = CHR '']'' \<or> cl = CHR ''}''"
    and eq: "join '', '' (map e xs) @ cl # r = join '', '' (map e ys) @ cl # r'"
  shows "xs = ys \<and> r = r'"
  using up W eq
proof (induction xs arbitrary: ys)
  case Nil
  show ?case
  proof (cases ys)
    case Nil
    with Nil.prems show ?thesis by simp
  next
    case (Cons y ys')
    with Nil.prems(3) have "W y" by simp
    from hd [OF this] obtain c cs where "e y = c # cs" "c \<noteq> cl" by (cases "e y") auto
    with Nil.prems(4) Cons show ?thesis by (simp add: join_Cons)
  qed
next
  case (Cons x xs')
  from Cons.prems(2) have Wx: "W x" by simp
  show ?case
  proof (cases ys)
    case Nil
    from hd [OF Wx] obtain c cs where "e x = c # cs" "c \<noteq> cl" by (cases "e x") auto
    with Cons.prems(4) Nil show ?thesis by (simp add: join_Cons)
  next
    case ys: (Cons y ys')
    with Cons.prems(3) have Wy: "W y" by simp
    let ?R = "(if xs' = [] then [] else '', '' @ join '', '' (map e xs')) @ cl # r"
    let ?R' = "(if ys' = [] then [] else '', '' @ join '', '' (map e ys')) @ cl # r'"
    have d: "delimited ?R" "delimited ?R'" using cl by (auto simp: delimited_def)
    from Cons.prems(4) ys have "e x @ ?R = e y @ ?R'" by (simp add: join_Cons)
    from Cons.prems(1) [OF _ Wy d this] have xy: "x = y" and R: "?R = ?R'" by simp_all
    show ?thesis
    proof (cases "xs' = []")
      case True
      with R cl have "ys' = []" by (auto split: if_splits)
      with True R xy ys show ?thesis by simp
    next
      case False
      with R cl have ne: "ys' \<noteq> []" by (auto split: if_splits)
      with False R have j: "join '', '' (map e xs') @ cl # r = join '', '' (map e ys') @ cl # r'"
        by simp
      have w: "list_all W xs'" "list_all W ys'" using Cons.prems(2,3) ys by simp_all
      have up': "\<And>x y r r'. x \<in> set xs' \<Longrightarrow> W y \<Longrightarrow> delimited r \<Longrightarrow> delimited r'
                 \<Longrightarrow> e x @ r = e y @ r' \<Longrightarrow> x = y \<and> r = r'"
        using Cons.prems(1) by (meson list.set_intros(2))
      from Cons.IH [OF up' w j] have "xs' = ys' \<and> r = r'" .
      with xy ys show ?thesis by simp
    qed
  qed
qed

lemma tok_kind_dumps:
  assumes "wf_json v"
  shows "dumps ea False v \<noteq> [] \<and> tok_kind (hd (dumps ea False v)) = kind v"
proof (cases v)
  case (JInt i)
  obtain c cs where e: "int_repr i = c # cs" using int_repr_not_empty [of i] by (cases "int_repr i") auto
  with int_repr_chars [of i] have "is_digit c \<or> c = CHR ''-''" by simp
  then have "tok_kind c = 2" by (auto simp: tok_kind_def is_digit_iff)
  with JInt e show ?thesis by simp
next
  case (JFloat t)
  with assms obtain c cs where t: "t = c # cs" and "c \<in> set ''-0123456789NI''"
    by (cases t) (auto simp: float_text_def)
  then have "tok_kind c = 2" by (auto simp: tok_kind_def)
  with JFloat t show ?thesis by simp
next
  case (JBool b)
  then show ?thesis by (simp add: tok_kind_def)
qed (simp_all add: encode_basestring_def tok_kind_def)

lemma dumps_same_kind:
  assumes "wf_json v" "wf_json v'" "dumps ea False v @ r = dumps ea False v' @ r'"
  shows "kind v = kind v'"
proof -
  from tok_kind_dumps [OF assms(1), of ea] obtain c cs where
    c: "dumps ea False v = c # cs" "tok_kind c = kind v"
    by (cases "dumps ea False v") auto
  from tok_kind_dumps [OF assms(2), of ea] obtain c' cs' where
    c': "dumps ea False v' = c' # cs'" "tok_kind c' = kind v'"
    by (cases "dumps ea False v'") auto
  from assms(3) c(1) c'(1) have "c = c'" by simp
  with c(2) c'(2) show ?thesis by simp
qed

lemma number_token_unique:
  assumes "list_all num_char t" "list_all num_char t'" "delimited r" "delimited r'"
    and "t @ r = t' @ r'"
  shows "t = t' \<and> r = r'"
  using token_unique [OF assms(1,2) delimited_not_num [OF assms(3)] delimited_not_num [OF assms(4)] assms(5)] .

lemma dumps_unique:
  "wf_json v \<Longrightarrow> wf_json v' \<Longrightarrow> delimited r \<Longrightarrow> delimited r'
    \<Longrightarrow> dumps ea False v @ r = dumps ea False v' @ r' \<Longrightarrow> v = v' \<and> r = r'"
proof (induction v arbitrary: v' r r')
  case JNull
  from dumps_same_kind [OF JNull.prems(1,2,5)] obtain "v' = JNull" by (cases v') simp_all
  with JNull.prems show ?case by simp
next
  case (JBool b)
  from dumps_same_kind [OF JBool.prems(1,2,5)] obtain b' where "v' = JBool b'" by (cases v') simp_all
  with JBool.prems show ?case by (cases b; cases b') simp_all
next
  case (JInt i)
  from dumps_same_kind [OF JInt.prems(1,2,5)] consider
    j where "v' = JInt j" | t where "v' = JFloat t" by (cases v') simp_all
  then show ?case
  proof cases
    case 1
    with JInt.prems have "int_repr i @ r = int_repr j @ r'" by simp
    from number_token_unique [OF int_repr_num int_repr_num JInt.prems(3,4) this]
    show ?thesis using 1 by (auto dest: int_repr_inj)
  next
    case 2
    with JInt.prems have t: "float_text t" and "int_repr i @ r = t @ r'" by simp_all
    from number_token_unique [OF int_repr_num float_text_num [OF t] JInt.prems(3,4) this(2)]
    have "int_repr i = t" by simp
    with t int_repr_not_float show ?thesis by blast
  qed
next
  case (JFloat t)
  from JFloat.prems have t: "float_text t" by simp
  from dumps_same_kind [OF JFloat.prems(1,2,5)] consider
    j where "v' = JInt j" | t' where "v' = JFloat t'" by (cases v') simp_all
  then show ?case
  proof cases
    case 1
    with JFloat.prems have "t @ r = int_repr j @ r'" by simp
    from number_token_unique [OF float_text_num [OF t] int_repr_num JFloat.prems(3,4) this]
    have "int_repr j = t" by simp
    with t int_repr_not_float show ?thesis by blast
  next
    case 2
    with JFloat.prems have t': "float_text t'" and "t @ r = t' @ r'" by simp_all
    from number_token_unique [OF float_text_num [OF t] float_text_num [OF t'] JFloat.prems(3,4) this(2)]
    show ?thesis using 2 by simp
  qed
next
  case (JStr s)
  from dumps_same_kind [OF JStr.prems(1,2,5)] obtain s' where "v' = JStr s'" by (cases v') simp_all
  with JStr.prems encode_basestring_unique [of ea s r s' r'] show ?case by simp
next
  case (JArr xs)
  from dumps_same_kind [OF JArr.prems(1,2,5)] obtain ys where v': "v' = JArr ys" by (cases v') simp_all
  have up: "\<And>x y r r'. x \<in> set xs \<Longrightarrow> wf_json y \<Longrightarrow> delimited r \<Longrightarrow> delimited r'
      \<Longrightarrow> dumps ea False x @ r = dumps ea False y @ r' \<Longrightarrow> x = y \<and> r = r'"
    using JArr.IH JArr.prems(1) by (simp add: list_all_iff)
  have hd: "\<And>y. wf_json y \<Longrightarrow> dumps ea False y \<noteq> [] \<and> hd (dumps ea False y) \<noteq> CHR '']''"
    using hd_dumps_not_closing by blast
  from JArr.prems v' have w: "list_all wf_json xs" "list_all wf_json ys" by simp_all
  from JArr.prems(5) v' have eq:
    "join '', '' (map (dumps ea False) xs) @ CHR '']'' # r
      = join '', '' (map (dumps ea False) ys) @ CHR '']'' # r'"
    by simp
  have cl: "CHR '']'' = CHR '']'' \<or> CHR '']'' = CHR ''}''" by simp
  have "xs = ys \<and> r = r'"
    by (rule join_unique [where W = wf_json and e = "dumps ea False" and cl = "CHR '']''",
          OF up hd w cl eq])
  then show ?case using v' by simp
next
  case (JObj kvs)
  from dumps_same_kind [OF JObj.prems(1,2,5)] obtain kvs' where v': "v' = JObj kvs'"
    by (cases v') simp_all
  let ?e = "\<lambda>kv. encode_basestring ea (fst kv) @ '': '' @ dumps ea False (snd kv)"
  let ?W = "\<lambda>kv. wf_json (snd kv)"
  have up: "x = y \<and> r = r'"
    if "x \<in> set kvs" "?W y" "delimited r" "delimited r'" "?e x @ r = ?e y @ r'" for x y r r'
  proof -
    from that(5) have "encode_basestring ea (fst x) @ ('': '' @ dumps ea False (snd x) @ r)
        = encode_basestring ea (fst y) @ ('': '' @ dumps ea False (snd y) @ r')"
      by simp
    from encode_basestring_unique [OF this]
    have k: "fst x = fst y" and "dumps ea False (snd x) @ r = dumps ea False (snd y) @ r'"
      by simp_all
    moreover have "wf_json (snd x)" using that(1) JObj.prems(1) by (auto simp: list_all_iff)
    moreover have "snd x \<in> Basic_BNFs.snds x" by (cases x) simp
    ultimately have "snd x = snd y \<and> r = r'"
      using JObj.IH [OF that(1), of "snd x" "snd y" r r'] that(2,3,4) by blast
    with k show ?thesis by (simp add: prod_eq_iff)
  qed
  have hd: "\<And>y. ?W y \<Longrightarrow> ?e y \<noteq> [] \<and> hd (?e y) \<noteq> CHR ''}''"
    by (simp add: encode_basestring_def)
  from JObj.prems v' have w: "list_all ?W kvs" "list_all ?W kvs'" by simp_all
  from JObj.prems(5) v' have eq:
    "join '', '' (map ?e kvs) @ CHR ''}'' # r = join '', '' (map ?e kvs') @ CHR ''}'' # r'"
    by simp
  have cl: "CHR ''}'' = CHR '']'' \<or> CHR ''}'' = CHR ''}''" by simp
  have "kvs = kvs' \<and> r = r'"
    by (rule join_unique [where W = ?W and e = ?e and cl = "CHR ''}''",
          OF up hd w cl eq])
  then show ?case using v' by simp
qed

lemma dumps_inj:
  "wf_json v \<Longrightarrow> wf_json v' \<Longrightarrow> dumps ea False v = dumps ea False v' \<Longrightarrow> v = v'"
  using dumps_unique [of v v' "[]" "[]" ea] by (simp add: delimited_def)

section \<open>Sorted keys: the canonical form\<close>

lemma insort_key_map_snd:
  "insort_key fst (fst kv, f (snd kv)) (map (\<lambda>kv. (fst kv, f (snd kv))) xs)
     = map (\<lambda>kv. (fst kv, f (snd kv))) (insort_key fst kv xs)"
  by (induction xs) simp_all

lemma sort_key_map_snd:
  "sort_key fst (map (\<lambda>kv. (fst kv, f (snd kv))) kvs)
     = map (\<lambda>kv. (fst kv, f (snd kv))) (sort_key fst kvs)"
  by (induction kvs) (simp_all add: insort_key_map_snd)

lemma dumps_canon: "dumps ea True v = dumps ea False (canon v)"
proof (induction v)
  case (JArr xs)
  then show ?case by (simp cong: map_cong)
next
  case (JObj kvs)
  have "map (\<lambda>kv. encode_basestring ea (fst kv) @ '': '' @ dumps ea True (snd kv)) (sort_key fst kvs)
      = map (\<lambda>kv. encode_basestring ea (fst kv) @ '': '' @ dumps ea False (canon (snd kv)))
          (sort_key fst kvs)"
  proof (rule map_cong [OF refl])
    fix kv assume "kv \<in> set (sort_key fst kvs)"
    then have "kv \<in> set kvs" by simp
    moreover have "snd kv \<in> Basic_BNFs.snds kv" by (cases kv) simp
    ultimately have "dumps ea True (snd kv) = dumps ea False (canon (snd kv))"
      using JObj.IH by blast
    then show "encode_basestring ea (fst kv) @ '': '' @ dumps ea True (snd kv)
        = encode_basestring ea (fst kv) @ '': '' @ dumps ea False (canon (snd kv))"
      by simp
  qed
  then have "''{'' @ join '', ''
        (map (\<lambda>kv. encode_basestring ea (fst kv) @ '': '' @ dumps ea True (snd kv))
          (sort_key fst kvs)) @ ''}''
      = ''{'' @ join '', ''
        (map (\<lambda>kv. encode_basestring ea (fst kv) @ '': '' @ dumps ea False (canon (snd kv)))
          (sort_key fst kvs)) @ ''}''"
    by (rule arg_cong)
  also have "\<dots> = dumps ea False (canon (JObj kvs))"
    by (simp add: sort_key_map_snd comp_def)
  finally show ?case by simp
qed simp_all

lemma distinct_keys_insort_key:
  "distinct (map fst (insort_key fst kv xs))
     \<longleftrightarrow> fst kv \<notin> set (map fst xs) \<and> distinct (map fst xs)"
  by (induction xs) (auto simp: set_insort_key)

lemma distinct_keys_sort_key:
  "distinct (map fst (sort_key fst kvs)) = distinct (map fst kvs)"
  by (induction kvs) (simp_all add: distinct_keys_insort_key)

lemma wf_canon: "wf_json v \<Longrightarrow> wf_json (canon v)"
proof (induction v)
  case (JArr xs)
  then show ?case by (simp add: list_all_iff)
next
  case (JObj kvs)
  have "\<And>kv. kv \<in> set kvs \<Longrightarrow> wf_json (canon (snd kv))"
  proof -
    fix kv assume kv: "kv \<in> set kvs"
    moreover have "snd kv \<in> Basic_BNFs.snds kv" by (cases kv) simp
    moreover have "wf_json (snd kv)" using kv JObj.prems by (simp add: list_all_iff)
    ultimately show "wf_json (canon (snd kv))" using JObj.IH by blast
  qed
  with JObj.prems show ?case
    by (simp add: sort_key_map_snd distinct_keys_sort_key list_all_iff comp_def)
qed simp_all

lemma keyed_sorted_unique:
  assumes "sorted (map fst a)" "distinct (map fst a)" "sorted (map fst b)" "distinct (map fst b)"
    and "set a = set b"
  shows "a = b"
proof (rule nth_equalityI)
  have "set (map fst a) = set (map fst b)" using assms(5) by simp
  with assms(1-4) have m: "map fst a = map fst b" by (simp add: sorted_distinct_set_unique)
  then show l: "length a = length b" by (rule map_eq_imp_length_eq)
  fix i assume i: "i < length a"
  with l have i': "i < length b" by simp
  from m i i' have k: "fst (a ! i) = fst (b ! i)" by (metis nth_map)
  from i assms(5) have "a ! i \<in> set b" by (metis nth_mem)
  moreover from i' have "b ! i \<in> set b" by (rule nth_mem)
  ultimately have "snd (a ! i) = snd (b ! i)"
    using assms(4) k by (metis eq_key_imp_eq_value prod.collapse)
  with k show "a ! i = b ! i" by (simp add: prod_eq_iff)
qed

lemma sort_key_eq_iff:
  assumes "distinct (map fst l1)" "distinct (map fst l2)"
  shows "sort_key fst l1 = sort_key fst l2 \<longleftrightarrow> set l1 = set l2"
proof
  assume "sort_key fst l1 = sort_key fst l2"
  then have "set (sort_key fst l1) = set (sort_key fst l2)" by simp
  then show "set l1 = set l2" by simp
next
  assume "set l1 = set l2"
  then show "sort_key fst l1 = sort_key fst l2"
    using assms by (intro keyed_sorted_unique) (simp_all add: distinct_keys_sort_key)
qed

lemma map_eq_iff_list_all2:
  "(\<And>x y. x \<in> set xs \<Longrightarrow> y \<in> set ys \<Longrightarrow> (f x = f y \<longleftrightarrow> R x y))
     \<Longrightarrow> (map f xs = map f ys \<longleftrightarrow> list_all2 R xs ys)"
proof (induction xs arbitrary: ys)
  case Nil
  show ?case by simp
next
  case (Cons x xs)
  show ?case
  proof (cases ys)
    case Nil
    then show ?thesis by simp
  next
    case ys: (Cons y ys')
    have "map f xs = map f ys' \<longleftrightarrow> list_all2 R xs ys'"
      using Cons.prems ys by (intro Cons.IH) simp
    moreover have "f x = f y \<longleftrightarrow> R x y" using Cons.prems ys by simp
    ultimately show ?thesis using ys by simp
  qed
qed

lemma canon_members_eq_iff:
  fixes xs ys :: "(string \<times> json) list"
  defines "g \<equiv> \<lambda>kv. (fst kv, canon (snd kv))"
  assumes ih: "\<And>k v v'. (k, v) \<in> set xs \<Longrightarrow> wf_json v' \<Longrightarrow> (canon v = canon v' \<longleftrightarrow> json_eq v v')"
    and dx: "distinct (map fst xs)" and dy: "distinct (map fst ys)"
    and wy: "\<And>k v'. (k, v') \<in> set ys \<Longrightarrow> wf_json v'"
  shows "set (map g xs) = set (map g ys) \<longleftrightarrow>
     (set (map fst xs) = set (map fst ys)
      \<and> (\<forall>(k, v) \<in> set xs. \<forall>(k', v') \<in> set ys. k = k' \<longrightarrow> json_eq v v'))"
proof
  assume e: "set (map g xs) = set (map g ys)"
  have "map fst (map g xs) = map fst xs" "map fst (map g ys) = map fst ys"
    by (simp_all add: g_def comp_def)
  moreover from e have "set (map fst (map g xs)) = set (map fst (map g ys))"
    by (metis set_map)
  ultimately have keys: "set (map fst xs) = set (map fst ys)" by simp
  have "json_eq v v'" if x: "(k, v) \<in> set xs" and y: "(k, v') \<in> set ys" for k v v'
  proof -
    from x have "(k, canon v) \<in> set (map g xs)" by (force simp: g_def)
    with e have "(k, canon v) \<in> set (map g ys)" by simp
    then obtain v2 where v2: "(k, v2) \<in> set ys" "canon v2 = canon v"
      by (auto simp: g_def)
    from dy v2(1) y have "v2 = v'" by (rule eq_key_imp_eq_value)
    with v2(2) have "canon v = canon v'" by simp
    with ih [OF x wy [OF y]] show ?thesis by simp
  qed
  with keys show "set (map fst xs) = set (map fst ys)
      \<and> (\<forall>(k, v) \<in> set xs. \<forall>(k', v') \<in> set ys. k = k' \<longrightarrow> json_eq v v')"
    by auto
next
  assume a: "set (map fst xs) = set (map fst ys)
      \<and> (\<forall>(k, v) \<in> set xs. \<forall>(k', v') \<in> set ys. k = k' \<longrightarrow> json_eq v v')"
  have same: "canon v = canon v'" if x: "(k, v) \<in> set xs" and y: "(k, v') \<in> set ys" for k v v'
  proof -
    from a x y have "json_eq v v'" by auto
    with ih [OF x wy [OF y]] show ?thesis by simp
  qed
  show "set (map g xs) = set (map g ys)"
  proof (intro equalityI subsetI)
    fix p assume "p \<in> set (map g xs)"
    then obtain k v where x: "(k, v) \<in> set xs" and p: "p = (k, canon v)" by (auto simp: g_def)
    from x have "k \<in> set (map fst xs)" by force
    with a have "k \<in> set (map fst ys)" by simp
    then obtain v' where y: "(k, v') \<in> set ys" by auto
    from same [OF x y] p have "p = g (k, v')" by (simp add: g_def)
    with y show "p \<in> set (map g ys)" by auto
  next
    fix p assume "p \<in> set (map g ys)"
    then obtain k v' where y: "(k, v') \<in> set ys" and p: "p = (k, canon v')" by (auto simp: g_def)
    from y have "k \<in> set (map fst ys)" by force
    with a have "k \<in> set (map fst xs)" by simp
    then obtain v where x: "(k, v) \<in> set xs" by auto
    from same [OF x y] p have "p = g (k, v)" by (simp add: g_def)
    with x show "p \<in> set (map g xs)" by auto
  qed
qed

lemma canon_eq_iff:
  "wf_json a \<Longrightarrow> wf_json b \<Longrightarrow> (canon a = canon b \<longleftrightarrow> json_eq a b)"
proof (induction a arbitrary: b)
  case (JArr xs)
  show ?case
  proof (cases b)
    case (JArr ys)
    have "map canon xs = map canon ys \<longleftrightarrow> list_all2 json_eq xs ys"
    proof (rule map_eq_iff_list_all2)
      fix x y assume "x \<in> set xs" "y \<in> set ys"
      with JArr.IH JArr.prems \<open>b = JArr ys\<close> show "canon x = canon y \<longleftrightarrow> json_eq x y"
        by (simp add: list_all_iff)
    qed
    with JArr show ?thesis by simp
  qed simp_all
next
  case (JObj xs)
  show ?case
  proof (cases b)
    case b: (JObj ys)
    let ?g = "\<lambda>kv. (fst kv, canon (snd kv)) :: string \<times> json"
    from JObj.prems b have dx: "distinct (map fst xs)" and dy: "distinct (map fst ys)" by simp_all
    have ih: "canon v = canon v' \<longleftrightarrow> json_eq v v'" if "(k, v) \<in> set xs" "wf_json v'" for k v v'
    proof -
      have "v \<in> Basic_BNFs.snds (k, v)" by simp
      moreover have "wf_json v" using that(1) JObj.prems(1) by (auto simp: list_all_iff)
      ultimately show ?thesis using JObj.IH [OF that(1)] that(2) by blast
    qed
    have wy: "wf_json v'" if "(k, v') \<in> set ys" for k v'
      using that JObj.prems(2) b by (auto simp: list_all_iff)
    have "canon (JObj xs) = canon (JObj ys) \<longleftrightarrow> sort_key fst (map ?g xs) = sort_key fst (map ?g ys)"
      by simp
    also have "\<dots> \<longleftrightarrow> set (map ?g xs) = set (map ?g ys)"
      using dx dy by (intro sort_key_eq_iff) (simp_all add: comp_def)
    also have "\<dots> \<longleftrightarrow> (set (map fst xs) = set (map fst ys)
      \<and> (\<forall>(k, v) \<in> set xs. \<forall>(k', v') \<in> set ys. k = k' \<longrightarrow> json_eq v v'))"
      using ih dx dy wy by (rule canon_members_eq_iff)
    also have "\<dots> \<longleftrightarrow> json_eq (JObj xs) (JObj ys)" by simp
    finally show ?thesis using b by simp
  qed simp_all
next
  case JNull
  show ?case by (cases b) simp_all
next
  case (JBool x)
  show ?case by (cases b) simp_all
next
  case (JInt x)
  show ?case by (cases b) simp_all
next
  case (JFloat x)
  show ?case by (cases b) simp_all
next
  case (JStr x)
  show ?case by (cases b) simp_all
qed

lemma normalize_site_eq_iff:
  assumes "wf_json a" "wf_json b"
  shows "normalize_site a = normalize_site b \<longleftrightarrow> json_eq a b"
proof -
  have "normalize_site a = normalize_site b
      \<longleftrightarrow> dumps False False (canon a) = dumps False False (canon b)"
    by (simp add: normalize_site_def dumps_canon)
  also have "\<dots> \<longleftrightarrow> canon a = canon b"
    using dumps_inj [OF wf_canon [OF assms(1)] wf_canon [OF assms(2)], of False] by auto
  also have "\<dots> \<longleftrightarrow> json_eq a b" using assms by (rule canon_eq_iff)
  finally show ?thesis .
qed

section \<open>The canonical key\<close>

lemma json_eq_refl: "wf_json a \<Longrightarrow> json_eq a a"
  using normalize_site_eq_iff [of a a] by simp

lemma json_eq_reordered:
  assumes "wf_json (JObj kvs)" "wf_json (JObj kvs')" "set kvs' = set kvs"
  shows "json_eq (JObj kvs) (JObj kvs')"
proof -
  have "json_eq v v'" if "(k, v) \<in> set kvs" "(k, v') \<in> set kvs'" for k v v'
  proof -
    from assms(1) have d: "distinct (map fst kvs)" by simp
    from that(2) assms(3) have "(k, v') \<in> set kvs" by simp
    with d that(1) have "v = v'" by (rule eq_key_imp_eq_value)
    moreover from assms(1) that(1) have "wf_json v" by (auto simp: list_all_iff)
    ultimately show ?thesis by (simp add: json_eq_refl)
  qed
  moreover have "set (map fst kvs) = set (map fst kvs')" using assms(3) by simp
  ultimately show ?thesis by auto
qed

text \<open>
  C1. For values as \<^verbatim>\<open>json.loads\<close> returns them, two values have the same canonical key if
  and only if they are structurally equal: the same scalars, the same items in the same order,
  the same keys with equal values whatever the order of the keys. In particular an object and
  the same object with its keys in another order have one key, and a change of a value, of the
  set of keys, of the type of a value or of the nesting changes the key.
\<close>

theorem canonical_key_iff_structurally_equal:
  assumes "wf_json a" and "wf_json b"
  shows "(normalize_site a = normalize_site b \<longleftrightarrow> json_eq a b)
       \<and> (\<forall>kvs kvs'. a = JObj kvs \<and> b = JObj kvs' \<and> set kvs' = set kvs
            \<longrightarrow> normalize_site a = normalize_site b)"
proof -
  have iff: "normalize_site a = normalize_site b \<longleftrightarrow> json_eq a b"
    using assms by (rule normalize_site_eq_iff)
  have "normalize_site a = normalize_site b"
    if "a = JObj kvs" "b = JObj kvs'" "set kvs' = set kvs" for kvs kvs'
  proof -
    from assms that have "json_eq a b" by (simp only: json_eq_reordered)
    with iff show ?thesis by simp
  qed
  with iff show ?thesis by blast
qed

theorem canonical_key_iff_structurally_equal_witness:
  "normalize_site site_ab = normalize_site site_ba
   \<and> normalize_site site_ab \<noteq> normalize_site site_other
   \<and> normalize_site (JInt 1) \<noteq> normalize_site (JFloat ''1.0'')
   \<and> normalize_site (JObj [(''a'', JInt 1)]) \<noteq> normalize_site (JObj [(''a'', JArr [JInt 1])])"
proof -
  have w: "wf_json site_ab" "wf_json site_ba" "wf_json site_other"
    by (simp_all add: site_ab_def site_ba_def site_other_def float_text_def float_char_def)
  have w1: "wf_json (JInt 1)" "wf_json (JFloat ''1.0'')"
    "wf_json (JObj [(''a'', JInt 1)])" "wf_json (JObj [(''a'', JArr [JInt 1])])"
    by (simp_all add: float_text_def float_char_def)
  have e1: "json_eq site_ab site_ba"
    by (simp add: site_ab_def site_ba_def insert_commute)
  have e2: "\<not> json_eq site_ab site_other"
    by (simp add: site_ab_def site_other_def)
  have e3: "\<not> json_eq (JInt 1) (JFloat ''1.0'')" by simp
  have e4: "\<not> json_eq (JObj [(''a'', JInt 1)]) (JObj [(''a'', JArr [JInt 1])])" by simp
  from canonical_key_iff_structurally_equal [OF w(1,2)] e1
  have 1: "normalize_site site_ab = normalize_site site_ba" by blast
  from canonical_key_iff_structurally_equal [OF w(1,3)] e2
  have 2: "normalize_site site_ab \<noteq> normalize_site site_other" by blast
  from canonical_key_iff_structurally_equal [OF w1(1,2)] e3
  have 3: "normalize_site (JInt 1) \<noteq> normalize_site (JFloat ''1.0'')" by blast
  from canonical_key_iff_structurally_equal [OF w1(3,4)] e4
  have 4: "normalize_site (JObj [(''a'', JInt 1)]) \<noteq> normalize_site (JObj [(''a'', JArr [JInt 1])])"
    by blast
  from 1 2 3 4 show ?thesis by blast
qed

section \<open>The extractor\<close>

lemma shape_sites_None_iff:
  "shape_sites obj = None \<longleftrightarrow>
     \<not> (\<exists>kvs xs. obj = JObj kvs \<and> dict_get kvs ''sites'' = Some (JArr xs)) \<and> \<not> (\<exists>xs. obj = JArr xs)"
  by (auto simp: shape_sites_def split: json.splits option.splits)

lemma extract_strict_first:
  "strict_parse loads doc = Some sites \<Longrightarrow> extract_sites_from_text loads doc = Inr sites"
  by (simp add: extract_sites_from_text_def)

lemma extract_capture_second:
  "strict_parse loads doc = None \<Longrightarrow> SITES_REGEX_search doc = Some g \<Longrightarrow> loads g = Inr (JArr xs)
    \<Longrightarrow> extract_sites_from_text loads doc = Inr xs"
  by (simp add: extract_sites_from_text_def regex_recover_def)

lemma extract_repair_third:
  "strict_parse loads doc = None \<Longrightarrow> SITES_REGEX_search doc = Some g \<Longrightarrow> loads g = Inl e
    \<Longrightarrow> loads (strip_trailing_commas g) = Inr (JArr xs)
    \<Longrightarrow> extract_sites_from_text loads doc = Inr xs"
  by (simp add: extract_sites_from_text_def regex_recover_def)

text \<open>
  C3. The strategies of \<^verbatim>\<open>extract_sites_from_text\<close> are tried in order and the first that
  succeeds gives the result: a result of the strict parse is returned whatever the text holds
  else; without one, the capture of the search is parsed; only when that parse raises is the
  capture repaired and parsed again. On \<^verbatim>\<open>{"sites": [1,2]}\<close> the strict parse gives \<^verbatim>\<open>[1, 2]\<close>.
  On \<^verbatim>\<open>prefix garbage "sites": [1, 2,] suffix\<close> the strict parse raises, the search captures
  \<^verbatim>\<open>[1, 2,]\<close>, whose parse raises, the repair gives \<^verbatim>\<open>[1, 2]\<close>, and the result is
  \<^verbatim>\<open>[1, 2]\<close>.
\<close>

theorem extractor_priority:
  \<open>(strict_parse loads doc = Some sites \<longrightarrow> extract_sites_from_text loads doc = Inr sites)
   \<and> (strict_parse loads doc = None \<and> SITES_REGEX_search doc = Some g \<and> loads g = Inr (JArr xs)
        \<longrightarrow> extract_sites_from_text loads doc = Inr xs)
   \<and> (strict_parse loads doc = None \<and> SITES_REGEX_search doc = Some g \<and> loads g = Inl e
        \<and> loads (strip_trailing_commas g) = Inr (JArr xs)
        \<longrightarrow> extract_sites_from_text loads doc = Inr xs)
   \<and> strict_parse (json_loads fo) ''{"sites": [1,2]}'' = Some [JInt 1, JInt 2]
   \<and> extract_sites_from_text (json_loads fo) ''{"sites": [1,2]}'' = Inr [JInt 1, JInt 2]
   \<and> json_loads fo ''prefix garbage "sites": [1, 2,] suffix'' = Inl JSONDecodeError
   \<and> strict_parse (json_loads fo) ''prefix garbage "sites": [1, 2,] suffix'' = None
   \<and> SITES_REGEX_search ''prefix garbage "sites": [1, 2,] suffix'' = Some ''[1, 2,]''
   \<and> json_loads fo ''[1, 2,]'' = Inl JSONDecodeError
   \<and> strip_trailing_commas ''[1, 2,]'' = ''[1, 2]''
   \<and> json_loads fo ''[1, 2]'' = Inr (JArr [JInt 1, JInt 2])
   \<and> extract_sites_from_text (json_loads fo) ''prefix garbage "sites": [1, 2,] suffix''
        = Inr [JInt 1, JInt 2]\<close>
proof -
  have a: \<open>strict_parse (json_loads fo) ''{"sites": [1,2]}'' = Some [JInt 1, JInt 2]\<close>
    by code_simp
  have b: \<open>json_loads fo ''prefix garbage "sites": [1, 2,] suffix'' = Inl JSONDecodeError\<close>
    by code_simp
  have c: \<open>SITES_REGEX_search ''prefix garbage "sites": [1, 2,] suffix'' = Some ''[1, 2,]''\<close>
    by code_simp
  have d: \<open>json_loads fo ''[1, 2,]'' = Inl JSONDecodeError\<close>
    by code_simp
  have e: \<open>strip_trailing_commas ''[1, 2,]'' = ''[1, 2]''\<close>
    by code_simp
  have f: \<open>json_loads fo ''[1, 2]'' = Inr (JArr [JInt 1, JInt 2])\<close>
    by code_simp
  have b': \<open>strict_parse (json_loads fo) ''prefix garbage "sites": [1, 2,] suffix'' = None\<close>
    by (simp add: strict_parse_def b)
  have g: \<open>extract_sites_from_text (json_loads fo) ''prefix garbage "sites": [1, 2,] suffix''
        = Inr [JInt 1, JInt 2]\<close>
    by (rule extract_repair_third [OF b' c d]) (simp only: e f)
  have a': \<open>extract_sites_from_text (json_loads fo) ''{"sites": [1,2]}'' = Inr [JInt 1, JInt 2]\<close>
    using a by (rule extract_strict_first)
  have g1: "strict_parse loads doc = Some sites \<longrightarrow> extract_sites_from_text loads doc = Inr sites"
    by (simp add: extract_strict_first)
  have g2: "strict_parse loads doc = None \<and> SITES_REGEX_search doc = Some g \<and> loads g = Inr (JArr xs)
        \<longrightarrow> extract_sites_from_text loads doc = Inr xs"
    by (simp add: extract_capture_second)
  have g3: "strict_parse loads doc = None \<and> SITES_REGEX_search doc = Some g \<and> loads g = Inl e
        \<and> loads (strip_trailing_commas g) = Inr (JArr xs)
        \<longrightarrow> extract_sites_from_text loads doc = Inr xs"
    by (auto intro: extract_repair_third)
  from g1 g2 g3 a a' b b' c d e f g show ?thesis by blast
qed

theorem extractor_priority_witness:
  \<open>extract_sites_from_text (json_loads id) ''{"sites": [1,2]}'' = Inr [JInt 1, JInt 2]
   \<and> extract_sites_from_text (json_loads id) ''prefix garbage "sites": [1, 2,] suffix''
        = Inr [JInt 1, JInt 2]
   \<and> extract_sites_from_text (json_loads id) ''see "SITES" : [3] and more'' = Inr [JInt 3]\<close>
proof -
  let ?t = \<open>''see "SITES" : [3] and more''\<close>
  have n: \<open>strict_parse (json_loads id) ?t = None\<close> by code_simp
  have s: \<open>SITES_REGEX_search ?t = Some ''[3]''\<close> by code_simp
  have l: \<open>json_loads id ''[3]'' = Inr (JArr [JInt 3])\<close> by (code_simp)
  from extractor_priority [where loads = "json_loads id" and doc = "?t" and g = "''[3]''"
      and xs = "[JInt 3]" and fo = id] n s l
  show ?thesis by blast
qed

text \<open>
  C4. When the text parses to a value that is neither a dict whose \<^verbatim>\<open>sites\<close> is a list nor a
  list, the first block returns nothing and the result is that of the search on the same
  text: the extractor does not stop with an empty result.
\<close>

theorem wrong_shape_falls_through:
  assumes "loads doc = Inr obj"
    and "\<not> (\<exists>kvs xs. obj = JObj kvs \<and> dict_get kvs ''sites'' = Some (JArr xs))"
    and "\<not> (\<exists>xs. obj = JArr xs)"
  shows "strict_parse loads doc = None
       \<and> extract_sites_from_text loads doc = regex_recover loads doc"
proof -
  have "shape_sites obj = None"
    using assms(2,3) by (simp add: shape_sites_None_iff)
  then have "strict_parse loads doc = None"
    using assms(1) by (simp add: strict_parse_def)
  then show ?thesis by (simp add: extract_sites_from_text_def)
qed

theorem wrong_shape_falls_through_witness:
  \<open>json_loads id ''{"data": {"sites": [1, 2]}}''
      = Inr (JObj [(''data'', JObj [(''sites'', JArr [JInt 1, JInt 2])])])
   \<and> strict_parse (json_loads id) ''{"data": {"sites": [1, 2]}}'' = None
   \<and> extract_sites_from_text (json_loads id) ''{"data": {"sites": [1, 2]}}'' = Inr [JInt 1, JInt 2]\<close>
proof -
  let ?t = \<open>''{"data": {"sites": [1, 2]}}''\<close>
  let ?obj = "JObj [(''data'', JObj [(''sites'', JArr [JInt 1, JInt 2])])]"
  have l: "json_loads id ?t = Inr ?obj" by code_simp
  have h2: "\<not> (\<exists>kvs xs. ?obj = JObj kvs \<and> dict_get kvs ''sites'' = Some (JArr xs))"
    by (simp add: dict_get_def)
  have h3: "\<not> (\<exists>xs. ?obj = JArr xs)" by simp
  have r: "regex_recover (json_loads id) ?t = Inr [JInt 1, JInt 2]" by (code_simp)
  from wrong_shape_falls_through [where loads = "json_loads id" and doc = "?t" and obj = "?obj",
      OF l h2 h3] l r
  show ?thesis by simp
qed

text \<open>
  C5. \<^verbatim>\<open>extract_sites_from_text\<close> returns a list for every text and every behaviour of
  \<^verbatim>\<open>json.loads\<close>: it never raises. A text that parses to a list gives that list, as
  \<^verbatim>\<open>[ {"a":1} ]\<close> does; a text that does not parse and in which the search finds nothing gives
  the empty list, which is a value returned, not an exception.
\<close>

theorem extract_sites_never_raises:
  \<open>(\<exists>sites. extract_sites_from_text loads doc = Inr sites)
   \<and> (loads doc = Inr (JArr xs) \<longrightarrow> extract_sites_from_text loads doc = Inr xs)
   \<and> (loads doc = Inl e \<and> SITES_REGEX_search doc = None
        \<longrightarrow> extract_sites_from_text loads doc = Inr [])
   \<and> extract_sites_from_text (json_loads fo) ''[ {"a":1} ]'' = Inr [JObj [(''a'', JInt 1)]]
   \<and> extract_sites_from_text (json_loads fo) ''no sites here, and no JSON'' = Inr []\<close>
proof -
  have 1: "\<exists>sites. extract_sites_from_text loads doc = Inr sites"
    by (auto simp: extract_sites_from_text_def regex_recover_def Let_def
        split: option.splits sum.splits json.splits)
  have 2: "loads doc = Inr (JArr xs) \<longrightarrow> extract_sites_from_text loads doc = Inr xs"
    by (simp add: extract_sites_from_text_def strict_parse_def shape_sites_def)
  have 3: "loads doc = Inl e \<and> SITES_REGEX_search doc = None
        \<longrightarrow> extract_sites_from_text loads doc = Inr []"
    by (simp add: extract_sites_from_text_def strict_parse_def regex_recover_def)
  have 4: \<open>extract_sites_from_text (json_loads fo) ''[ {"a":1} ]'' = Inr [JObj [(''a'', JInt 1)]]\<close>
    by code_simp
  have 5: \<open>extract_sites_from_text (json_loads fo) ''no sites here, and no JSON'' = Inr []\<close>
    by (code_simp)
  from 1 2 3 4 5 show ?thesis by blast
qed

theorem extract_sites_never_raises_witness:
  \<open>json_loads id ''no sites here, and no JSON'' = Inl JSONDecodeError
   \<and> SITES_REGEX_search ''no sites here, and no JSON'' = None
   \<and> extract_sites_from_text (json_loads id) ''no sites here, and no JSON'' = Inr []
   \<and> json_loads id ''[ {"a":1} ]'' = Inr (JArr [JObj [(''a'', JInt 1)]])
   \<and> extract_sites_from_text (json_loads id) ''[ {"a":1} ]'' = Inr [JObj [(''a'', JInt 1)]]\<close>
proof -
  let ?t = "''no sites here, and no JSON''"
  have l: "json_loads id ?t = Inl JSONDecodeError" by code_simp
  have s: "SITES_REGEX_search ?t = None" by code_simp
  have b: \<open>json_loads id ''[ {"a":1} ]'' = Inr (JArr [JObj [(''a'', JInt 1)]])\<close> by (code_simp)
  from extract_sites_never_raises [where loads = "json_loads id" and doc = "?t" and e = JSONDecodeError]
    l s
  have 1: "extract_sites_from_text (json_loads id) ?t = Inr []" by blast
  let ?b = \<open>''[ {"a":1} ]''\<close>
  from extract_sites_never_raises [where loads = "json_loads id" and doc = "?b"
      and xs = "[JObj [(''a'', JInt 1)]]"] b
  have 2: \<open>extract_sites_from_text (json_loads id) ''[ {"a":1} ]'' = Inr [JObj [(''a'', JInt 1)]]\<close>
    by blast
  from l s b 1 2 show ?thesis by blast
qed

section \<open>The merged list\<close>

lemma new_entries_append:
  "new_entries key S (xs @ ys) = new_entries key S xs @ new_entries key (S \<union> key ` set xs) ys"
  by (induction xs arbitrary: S) (simp_all add: insert_absorb)

lemma new_entries_keys: "key ` set (new_entries key S xs) = key ` set xs - S"
  by (induction xs arbitrary: S) auto

lemma new_entries_distinct: "distinct (map key (new_entries key S xs))"
proof (induction xs arbitrary: S)
  case Nil
  show ?case by simp
next
  case (Cons x xs)
  have "key x \<notin> key ` set (new_entries key (insert (key x) S) xs)"
    by (simp add: new_entries_keys)
  with Cons show ?case by simp
qed

lemma new_entries_filter:
  "new_entries key S xs
     = map snd (filter (\<lambda>(i, x). key x \<notin> S \<union> key ` set (take i xs)) (enumerate 0 xs))"
proof (induction xs arbitrary: S)
  case Nil
  show ?case by simp
next
  case (Cons x xs)
  have sh: "map snd (filter (\<lambda>(i, y). key y \<notin> S \<union> key ` set (take i (x # xs))) (enumerate (Suc 0) xs))
      = map snd (filter (\<lambda>(i, y). key y \<notin> insert (key x) S \<union> key ` set (take i xs)) (enumerate 0 xs))"
    by (simp add: enumerate_Suc_eq filter_map comp_def case_prod_unfold conj_ac)
  show ?case
  proof (cases "key x \<in> S")
    case True
    then have "insert (key x) S = S" by auto
    with True sh Cons [of S] show ?thesis by simp
  next
    case False
    with sh Cons [of "insert (key x) S"] show ?thesis by simp
  qed
qed

lemma first_occurrences_new_entries: "first_occurrences key xs = new_entries key {} xs"
  by (simp add: first_occurrences_def new_entries_filter)

lemma accumulate_new_entries:
  "merged (accumulate sites st) = merged st @ new_entries normalize_site (seen st) sites
   \<and> seen (accumulate sites st) = seen st \<union> normalize_site ` set sites"
  by (induction sites arbitrary: st) (auto simp: Let_def)

lemma fetched_Nil [simp]: "fetched net loads i [] = []"
  by (simp add: fetched_def)

lemma fetched_Cons:
  "fetched net loads i (u # us) = sites_of (net i) loads u @ fetched net loads (Suc i) us"
  by (simp add: fetched_def)

lemma merge_loop_merged:
  assumes "0 \<le> arg_delay a" and "merge_loop net loads a us st = Inr st'"
  shows "processed st \<le> processed st' \<and> processed st' - processed st \<le> length us
       \<and> merged st' = merged st @ new_entries normalize_site (seen st)
            (fetched net loads (processed st) (take (processed st' - processed st) us))
       \<and> seen st' = seen st \<union> normalize_site `
            set (fetched net loads (processed st) (take (processed st' - processed st) us))"
  using assms
proof (induction us arbitrary: st)
  case Nil
  then show ?case by simp
next
  case (Cons u us)
  show ?case
  proof (cases "arg_max a \<noteq> 0 \<and> int (processed st) \<ge> arg_max a")
    case True
    with Cons.prems have "st' = st" by simp
    then show ?thesis by simp
  next
    case False
    obtain sites where f: "fetch_and_extract (net (processed st)) loads u
        = (if py_truthy u then [u] else [], Inr sites)"
      using fetch_and_extract_returns by blast
    then have so: "sites_of (net (processed st)) loads u = sites" by (simp add: sites_of_def)
    let ?st1 = "accumulate sites (st\<lparr>requests := requests st @ (if py_truthy u then [u] else [])\<rparr>)"
    let ?st2 = "?st1\<lparr>processed := processed st + 1, sleeps := sleeps st @ [arg_delay a]\<rparr>"
    have run: "merge_loop net loads a us ?st2 = Inr st'"
      using Cons.prems False by (auto simp: f time_sleep_def Let_def)
    from accumulate_new_entries [of sites "st\<lparr>requests := requests st @ (if py_truthy u then [u] else [])\<rparr>"]
    have m2: "merged ?st2 = merged st @ new_entries normalize_site (seen st) sites"
      and s2: "seen ?st2 = seen st \<union> normalize_site ` set sites"
      by simp_all
    have p2: "processed ?st2 = Suc (processed st)" by simp
    from Cons.IH [OF Cons.prems(1) run]
    have ih: "Suc (processed st) \<le> processed st'"
      "processed st' - Suc (processed st) \<le> length us"
      "merged st' = merged ?st2 @ new_entries normalize_site (seen ?st2)
            (fetched net loads (Suc (processed st)) (take (processed st' - Suc (processed st)) us))"
      "seen st' = seen ?st2 \<union> normalize_site `
            set (fetched net loads (Suc (processed st)) (take (processed st' - Suc (processed st)) us))"
      unfolding p2 by blast+
    define k where "k = processed st' - Suc (processed st)"
    have k: "processed st' - processed st = Suc k" using ih(1) by (simp add: k_def)
    have fe: "fetched net loads (processed st) (take (Suc k) (u # us))
        = sites @ fetched net loads (Suc (processed st)) (take k us)"
      by (simp add: fetched_Cons so)
    show ?thesis
      unfolding k fe
      using ih m2 s2 by (simp add: k_def [symmetric] new_entries_append Un_assoc image_Un)
  qed
qed

text \<open>
  C2. The merged list holds the entries handed to the loop, URL by URL in the order of the
  URLs and within a URL in the order of its list, each kept when no entry before it has its
  canonical key: the first occurrence of every key and no other. No two entries of the result
  have one key, every entry handed to the loop has exactly one entry of the result with its
  key, and no two entries of the result are structurally equal, whatever the order of their
  keys.
\<close>

theorem merged_first_seen_distinct:
  assumes "0 \<le> arg_delay a" and "merge_loop net loads a urls init_state = Inr st"
  shows "merged st
           = first_occurrences normalize_site (fetched net loads 0 (take (processed st) urls))
       \<and> distinct (map normalize_site (merged st))
       \<and> (\<forall>x \<in> set (fetched net loads 0 (take (processed st) urls)).
             \<exists>!m. m \<in> set (merged st) \<and> normalize_site m = normalize_site x)
       \<and> (\<forall>m \<in> set (merged st). \<forall>m' \<in> set (merged st).
             wf_json m \<and> wf_json m' \<and> json_eq m m' \<longrightarrow> m = m')"
proof -
  let ?all = "fetched net loads 0 (take (processed st) urls)"
  from merge_loop_merged [OF assms]
  have m: "merged st = new_entries normalize_site {} ?all"
    by (simp add: init_state_def)
  then have 1: "merged st = first_occurrences normalize_site ?all"
    by (simp add: first_occurrences_new_entries)
  have 2: "distinct (map normalize_site (merged st))"
    unfolding m by (rule new_entries_distinct)
  then have inj: "inj_on normalize_site (set (merged st))"
    by (simp add: distinct_map)
  have keys: "normalize_site ` set (merged st) = normalize_site ` set ?all"
    unfolding m by (simp add: new_entries_keys)
  have 3: "\<exists>!m. m \<in> set (merged st) \<and> normalize_site m = normalize_site x" if "x \<in> set ?all" for x
  proof -
    from that keys have "normalize_site x \<in> normalize_site ` set (merged st)" by blast
    then obtain m where "m \<in> set (merged st)" "normalize_site m = normalize_site x" by auto
    then show ?thesis using inj by (metis inj_onD)
  qed
  have 4: "m = m'"
    if "m \<in> set (merged st)" "m' \<in> set (merged st)" "wf_json m \<and> wf_json m' \<and> json_eq m m'"
    for m m'
  proof -
    from that(3) have "normalize_site m = normalize_site m'"
      by (simp add: normalize_site_eq_iff)
    with inj that(1,2) show ?thesis by (metis inj_onD)
  qed
  from 1 2 3 4 show ?thesis by blast
qed

theorem merged_first_seen_distinct_witness:
  "\<exists>st. merge_loop two_answers (\<lambda>s. Inl JSONDecodeError) \<lparr>arg_delay = 1/2, arg_max = 0\<rparr>
           [JStr ''http://x/1'', JStr ''http://x/2''] init_state = Inr st
      \<and> merged st = [site_ab, JInt 7, site_other]
      \<and> distinct (map normalize_site (merged st))"
proof -
  let ?loads = "\<lambda>s::string. Inl JSONDecodeError :: pyerror + json"
  let ?a = "\<lparr>arg_delay = 1/2, arg_max = 0\<rparr>"
  let ?urls = "[JStr ''http://x/1'', JStr ''http://x/2'']"
  have d: "0 \<le> arg_delay ?a" by simp
  obtain st where st: "merge_loop two_answers ?loads ?a ?urls init_state = Inr st"
    using merge_loop_returns [OF d] by blast
  from merge_loop_uncapped [OF d _ st] have p: "processed st = 2"
    by (simp add: init_state_def)
  have f: "fetched two_answers ?loads 0 (take 2 ?urls)
      = [site_ab, JInt 7, site_ba, site_other, JInt 7]"
    by (simp add: fetched_def sites_of_def fetch_and_extract_def two_answers_def ok_response_def
        response_sites_def shape_sites_def dict_get_def)
  have o: "first_occurrences normalize_site [site_ab, JInt 7, site_ba, site_other, JInt 7]
      = [site_ab, JInt 7, site_other]"
    by code_simp
  from merged_first_seen_distinct [OF d st]
  have "merged st = first_occurrences normalize_site (fetched two_answers ?loads 0 (take (processed st) ?urls))"
    and "distinct (map normalize_site (merged st))"
    by blast+
  then have "merged st = [site_ab, JInt 7, site_other]" "distinct (map normalize_site (merged st))"
    by (simp_all only: p f o)
  with st show ?thesis by blast
qed

section \<open>The URLs of an index with a \<^verbatim>\<open>urls\<close> list\<close>

lemma resolve_entry_first_truthy:
  "resolve_entry (JObj kvs) =
     (case first_truthy kvs [''url'', ''Url'', ''link''] of Some v \<Rightarrow> [v] | None \<Rightarrow> [])"
  by (auto simp: resolve_entry_def entry_get_def py_or_def Let_def split: option.splits)

lemma first_truthy_eq_first_present:
  "(\<And>k v. k \<in> set ks \<Longrightarrow> dict_get kvs k = Some v \<Longrightarrow> py_truthy v)
     \<Longrightarrow> first_truthy kvs ks = first_present kvs ks"
  by (induction ks) (auto split: option.splits)

text \<open>
  C6, as the source has it. For an index whose \<^verbatim>\<open>urls\<close> is a list, a string entry is taken as
  it is; an object entry gives the first value among the keys \<^verbatim>\<open>url\<close>, \<^verbatim>\<open>Url\<close>, \<^verbatim>\<open>link\<close>, in
  this order, that is present and true in Python's sense (not \<^verbatim>\<open>None\<close>, \<^verbatim>\<open>False\<close>, zero or
  empty), and nothing when there is no such value; every other entry gives nothing. Where
  every value present under these keys is true, this is the first present value, as the
  specification has it.
\<close>

theorem resolve_urls_first_truthy:
  assumes "dict_get kvs ''urls'' = Some (JArr entries)"
  shows "resolve_urls (JObj kvs) = concat (map resolve_entry entries)
       \<and> resolve_entry (JStr s) = [JStr s]
       \<and> resolve_entry (JObj e) =
           (case first_truthy e [''url'', ''Url'', ''link''] of Some v \<Rightarrow> [v] | None \<Rightarrow> [])
       \<and> ((\<forall>k \<in> {''url'', ''Url'', ''link''}. \<forall>v. dict_get e k = Some v \<longrightarrow> py_truthy v)
            \<longrightarrow> resolve_entry (JObj e) = spec_resolve_entry (JObj e))
       \<and> resolve_entry JNull = [] \<and> resolve_entry (JBool b) = [] \<and> resolve_entry (JInt i) = []
       \<and> resolve_entry (JFloat r) = [] \<and> resolve_entry (JArr xs) = []"
proof -
  have 1: "resolve_urls (JObj kvs) = concat (map resolve_entry entries)"
    using assms by (simp add: resolve_urls_def)
  have 2: "resolve_entry (JStr s) = [JStr s]" by (simp add: resolve_entry_def)
  have 3: "resolve_entry (JObj e) =
           (case first_truthy e [''url'', ''Url'', ''link''] of Some v \<Rightarrow> [v] | None \<Rightarrow> [])"
    by (rule resolve_entry_first_truthy)
  have 4: "(\<forall>k \<in> {''url'', ''Url'', ''link''}. \<forall>v. dict_get e k = Some v \<longrightarrow> py_truthy v)
            \<longrightarrow> resolve_entry (JObj e) = spec_resolve_entry (JObj e)"
  proof
    assume a: "\<forall>k \<in> {''url'', ''Url'', ''link''}. \<forall>v. dict_get e k = Some v \<longrightarrow> py_truthy v"
    have "first_truthy e [''url'', ''Url'', ''link''] = first_present e [''url'', ''Url'', ''link'']"
      by (rule first_truthy_eq_first_present) (use a in auto)
    then show "resolve_entry (JObj e) = spec_resolve_entry (JObj e)"
      by (simp only: 3 spec_resolve_entry_def json.case)
  qed
  have 5: "resolve_entry JNull = [] \<and> resolve_entry (JBool b) = [] \<and> resolve_entry (JInt i) = []
       \<and> resolve_entry (JFloat r) = [] \<and> resolve_entry (JArr xs) = []"
    by (simp add: resolve_entry_def)
  from 1 2 3 4 5 show ?thesis by blast
qed

text \<open>The index of the specification's example resolves to its three URLs, in order.\<close>

theorem resolve_urls_first_truthy_witness:
  "resolve_urls (JObj [(''urls'', JArr [JStr ''http://x/1'', JObj [(''url'', JStr ''http://x/2'')],
        JObj [(''link'', JStr ''http://x/3'')], JObj [(''nope'', JStr ''z'')]])])
     = [JStr ''http://x/1'', JStr ''http://x/2'', JStr ''http://x/3'']
   \<and> resolve_entry (JObj [(''link'', JStr ''http://x/3'')])
       = spec_resolve_entry (JObj [(''link'', JStr ''http://x/3'')])"
proof -
  let ?entries = "[JStr ''http://x/1'', JObj [(''url'', JStr ''http://x/2'')],
        JObj [(''link'', JStr ''http://x/3'')], JObj [(''nope'', JStr ''z'')]]"
  have h: "dict_get [(''urls'', JArr ?entries)] ''urls'' = Some (JArr ?entries)"
    by (simp add: dict_get_def)
  have t: "\<forall>k \<in> {''url'', ''Url'', ''link''}. \<forall>v.
      dict_get [(''link'', JStr ''http://x/3'')] k = Some v \<longrightarrow> py_truthy v"
    by (auto simp: dict_get_def)
  have c: "concat (map resolve_entry ?entries)
      = [JStr ''http://x/1'', JStr ''http://x/2'', JStr ''http://x/3'']"
    by (simp add: resolve_entry_def entry_get_def dict_get_def py_or_def)
  note th = resolve_urls_first_truthy [OF h, where e = "[(''link'', JStr ''http://x/3'')]"]
  from th have a: "resolve_urls (JObj [(''urls'', JArr ?entries)]) = concat (map resolve_entry ?entries)"
    by blast
  from a c have a': "resolve_urls (JObj [(''urls'', JArr ?entries)])
      = [JStr ''http://x/1'', JStr ''http://x/2'', JStr ''http://x/3'']"
    by (rule trans)
  from th t have b: "resolve_entry (JObj [(''link'', JStr ''http://x/3'')])
       = spec_resolve_entry (JObj [(''link'', JStr ''http://x/3'')])"
    by blast
  from a' b show ?thesis by (rule conjI)
qed

text \<open>
  C6, as the specification has it, fails on an entry whose \<^verbatim>\<open>url\<close> is the empty string: the
  first present value is that empty string, and the source takes the value of \<^verbatim>\<open>link\<close>.
\<close>

theorem first_present_value_counterexample:
  "resolve_urls (JObj [(''urls'', JArr [JObj [(''url'', JStr ''''), (''link'', JStr ''http://x/3'')]])])
     = [JStr ''http://x/3'']
   \<and> concat (map spec_resolve_entry [JObj [(''url'', JStr ''''), (''link'', JStr ''http://x/3'')]])
     = [JStr '''']
   \<and> resolve_urls (JObj [(''urls'', JArr [JObj [(''url'', JStr ''''), (''link'', JStr ''http://x/3'')]])])
     \<noteq> concat (map spec_resolve_entry [JObj [(''url'', JStr ''''), (''link'', JStr ''http://x/3'')]])"
  by (simp add: resolve_urls_def resolve_entry_def spec_resolve_entry_def entry_get_def
      dict_get_def py_or_def)

section \<open>The URLs of an index without a \<^verbatim>\<open>urls\<close> list\<close>

lemma of_char_eq_numeral: "(of_char c :: nat) = of_char d \<Longrightarrow> c = d"
  by simp

lemma is_space_white_space: "is_space c = white_space c"
proof
  assume "is_space c"
  then consider "(of_char c :: nat) = 9" | "(of_char c :: nat) = 10" | "(of_char c :: nat) = 11"
    | "(of_char c :: nat) = 12" | "(of_char c :: nat) = 13" | "(of_char c :: nat) = 28"
    | "(of_char c :: nat) = 29" | "(of_char c :: nat) = 30" | "(of_char c :: nat) = 31"
    | "(of_char c :: nat) = 32" | "(of_char c :: nat) = 133" | "(of_char c :: nat) = 160"
    by (auto simp: is_space_def)
  then show "white_space c"
  proof cases
    case 1 then have "(of_char c :: nat) = of_char (CHR 0x09)" by simp
    then have "c = CHR 0x09" by (rule of_char_eq_numeral) then show ?thesis by (simp add: white_space_def)
  next
    case 2 then have "(of_char c :: nat) = of_char (CHR 0x0A)" by simp
    then have "c = CHR 0x0A" by (rule of_char_eq_numeral) then show ?thesis by (simp add: white_space_def)
  next
    case 3 then have "(of_char c :: nat) = of_char (CHR 0x0B)" by simp
    then have "c = CHR 0x0B" by (rule of_char_eq_numeral) then show ?thesis by (simp add: white_space_def)
  next
    case 4 then have "(of_char c :: nat) = of_char (CHR 0x0C)" by simp
    then have "c = CHR 0x0C" by (rule of_char_eq_numeral) then show ?thesis by (simp add: white_space_def)
  next
    case 5 then have "(of_char c :: nat) = of_char (CHR 0x0D)" by simp
    then have "c = CHR 0x0D" by (rule of_char_eq_numeral) then show ?thesis by (simp add: white_space_def)
  next
    case 6 then have "(of_char c :: nat) = of_char (CHR 0x1C)" by simp
    then have "c = CHR 0x1C" by (rule of_char_eq_numeral) then show ?thesis by (simp add: white_space_def)
  next
    case 7 then have "(of_char c :: nat) = of_char (CHR 0x1D)" by simp
    then have "c = CHR 0x1D" by (rule of_char_eq_numeral) then show ?thesis by (simp add: white_space_def)
  next
    case 8 then have "(of_char c :: nat) = of_char (CHR 0x1E)" by simp
    then have "c = CHR 0x1E" by (rule of_char_eq_numeral) then show ?thesis by (simp add: white_space_def)
  next
    case 9 then have "(of_char c :: nat) = of_char (CHR 0x1F)" by simp
    then have "c = CHR 0x1F" by (rule of_char_eq_numeral) then show ?thesis by (simp add: white_space_def)
  next
    case 10 then have "(of_char c :: nat) = of_char (CHR '' '')" by simp
    then have "c = CHR '' ''" by (rule of_char_eq_numeral) then show ?thesis by (simp add: white_space_def)
  next
    case 11 then have "(of_char c :: nat) = of_char (CHR 0x85)" by simp
    then have "c = CHR 0x85" by (rule of_char_eq_numeral) then show ?thesis by (simp add: white_space_def)
  next
    case 12 then have "(of_char c :: nat) = of_char (CHR 0xA0)" by simp
    then have "c = CHR 0xA0" by (rule of_char_eq_numeral) then show ?thesis by (simp add: white_space_def)
  qed
next
  assume "white_space c"
  then show "is_space c" by (auto simp: white_space_def is_space_def)
qed

lemma url_char_token_char: "url_char c = token_char c"
  by (simp add: url_char_def token_char_def is_space_white_space)

lemma take_eq_iff: "length p = n \<Longrightarrow> take n s = p \<longleftrightarrow> (\<exists>r. s = p @ r)"
  by (metis append_eq_conv_conj append_take_drop_id)

lemma match_url_at_https:
  "match_url_at (''https://'' @ r) =
     (if takeWhile url_char r = [] then None
      else Some (''https://'' @ takeWhile url_char r, dropWhile url_char r))"
  by (simp add: match_url_at_def)

lemma match_url_at_http:
  "match_url_at (''http://'' @ r) =
     (if takeWhile url_char r = [] then None
      else Some (''http://'' @ takeWhile url_char r, dropWhile url_char r))"
  by (simp add: match_url_at_def)

lemma match_url_at_other:
  assumes "\<not> (\<exists>r. s = ''https://'' @ r)" "\<not> (\<exists>r. s = ''http://'' @ r)"
  shows "match_url_at s = None"
proof -
  from assms(1) have "take 8 s \<noteq> ''https://''" using take_eq_iff [of "''https://''" 8 s] by simp
  moreover from assms(2) have "take 7 s \<noteq> ''http://''" using take_eq_iff [of "''http://''" 7 s] by simp
  ultimately show ?thesis by (simp add: match_url_at_def)
qed

lemma scheme_cases:
  obtains (https) r where "s = ''https://'' @ r"
  | (http) r where "s = ''http://'' @ r"
  | (other) "\<not> (\<exists>r. s = ''https://'' @ r)" "\<not> (\<exists>r. s = ''http://'' @ r)"
  by blast

lemma takeWhile_Nil_iff: "takeWhile P r = [] \<longleftrightarrow> r = [] \<or> \<not> P (hd r)"
  by (cases r) simp_all

lemma token_starts_https: "token_starts (''https://'' @ r) \<longleftrightarrow> r \<noteq> [] \<and> token_char (hd r)"
  by (cases r) (auto simp: token_starts_def)

lemma token_starts_http: "token_starts (''http://'' @ r) \<longleftrightarrow> r \<noteq> [] \<and> token_char (hd r)"
  by (cases r) (auto simp: token_starts_def)

lemma match_url_at_None_iff: "match_url_at s = None \<longleftrightarrow> \<not> token_starts s"
proof (cases s rule: scheme_cases)
  case (https r)
  then show ?thesis
    by (simp only: match_url_at_https token_starts_https)
       (simp add: takeWhile_Nil_iff url_char_token_char)
next
  case (http r)
  then show ?thesis
    by (simp only: match_url_at_http token_starts_http)
       (simp add: takeWhile_Nil_iff url_char_token_char)
next
  case other
  then have "\<not> token_starts s" by (auto simp: token_starts_def)
  with other show ?thesis by (simp add: match_url_at_other)
qed

lemma list_all_takeWhile: "list_all P (takeWhile P r)"
  by (induction r) simp_all

lemma dropWhile_stops: "dropWhile P r = [] \<or> \<not> P (hd (dropWhile P r))"
  by (metis hd_dropWhile)

lemma match_url_at_Some:
  assumes "match_url_at s = Some (m, rest)"
  shows "s = m @ rest \<and> url_token m \<and> (rest = [] \<or> \<not> token_char (hd rest))"
proof (cases s rule: scheme_cases)
  case (https r)
  with assms have t: "takeWhile url_char r \<noteq> []" and m: "m = ''https://'' @ takeWhile url_char r"
    and rest: "rest = dropWhile url_char r"
    by (auto simp only: match_url_at_https split: if_splits)
  have "list_all token_char (takeWhile url_char r)"
    using list_all_takeWhile [of url_char r] by (simp add: url_char_token_char [abs_def])
  with t m have "url_token m" by (auto simp: url_token_def)
  moreover have "rest = [] \<or> \<not> token_char (hd rest)"
    using dropWhile_stops [of url_char r] by (simp add: rest url_char_token_char)
  moreover have "s = m @ rest" by (simp add: https m rest)
  ultimately show ?thesis by simp
next
  case (http r)
  with assms have t: "takeWhile url_char r \<noteq> []" and m: "m = ''http://'' @ takeWhile url_char r"
    and rest: "rest = dropWhile url_char r"
    by (auto simp only: match_url_at_http split: if_splits)
  have "list_all token_char (takeWhile url_char r)"
    using list_all_takeWhile [of url_char r] by (simp add: url_char_token_char [abs_def])
  with t m have "url_token m" by (auto simp: url_token_def)
  moreover have "rest = [] \<or> \<not> token_char (hd rest)"
    using dropWhile_stops [of url_char r] by (simp add: rest url_char_token_char)
  moreover have "s = m @ rest" by (simp add: http m rest)
  ultimately show ?thesis by simp
next
  case other
  with assms show ?thesis by (simp add: match_url_at_other)
qed

lemma dropWhile_token:
  "list_all P t \<Longrightarrow> r = [] \<or> \<not> P (hd r) \<Longrightarrow> dropWhile P (t @ r) = r"
  by (metis takeWhile_token takeWhile_dropWhile_id same_append_eq)

lemma match_url_at_token:
  assumes "url_token m" and "rest = [] \<or> \<not> token_char (hd rest)"
  shows "match_url_at (m @ rest) = Some (m, rest)"
proof -
  from assms(1) obtain body where b: "body \<noteq> []" "list_all token_char body"
    and m: "m = ''http://'' @ body \<or> m = ''https://'' @ body"
    by (auto simp: url_token_def)
  from b(2) have a: "list_all url_char body" by (simp add: url_char_token_char [abs_def])
  from assms(2) have r: "rest = [] \<or> \<not> url_char (hd rest)" by (simp add: url_char_token_char)
  have tw: "takeWhile url_char (body @ rest) = body" using a r by (rule takeWhile_token)
  have dw: "dropWhile url_char (body @ rest) = rest" using a r by (rule dropWhile_token)
  from m show ?thesis
  proof
    assume "m = ''http://'' @ body"
    then have "m @ rest = ''http://'' @ (body @ rest)" by simp
    then show ?thesis
      by (simp only: match_url_at_http tw dw) (simp add: b \<open>m = ''http://'' @ body\<close>)
  next
    assume "m = ''https://'' @ body"
    then have "m @ rest = ''https://'' @ (body @ rest)" by simp
    then show ?thesis
      by (simp only: match_url_at_https tw dw) (simp add: b \<open>m = ''https://'' @ body\<close>)
  qed
qed

lemma url_finditer_skip:
  "\<not> token_starts (c # cs) \<Longrightarrow> url_finditer (c # cs) = url_finditer cs"
  by (simp add: match_url_at_None_iff [symmetric])

lemma url_token_not_empty: "url_token m \<Longrightarrow> m \<noteq> []"
  by (auto simp: url_token_def)

lemma url_finditer_token:
  assumes "url_token m" and "rest = [] \<or> \<not> token_char (hd rest)"
  shows "url_finditer (m @ rest) = m # url_finditer rest"
proof -
  from assms(1) obtain c cs where "m @ rest = c # cs"
    using url_token_not_empty by (cases m) auto
  with match_url_at_token [OF assms] show ?thesis
    by (metis url_finditer.simps(2) option.simps(5) case_prod_conv)
qed

lemma url_finditer_no_token:
  "(\<And>j. j \<le> length s \<Longrightarrow> \<not> token_starts (drop j s)) \<Longrightarrow> url_finditer s = []"
proof (induction s)
  case Nil
  show ?case by simp
next
  case (Cons c cs)
  from Cons.prems [of 0] have "\<not> token_starts (c # cs)" by simp
  then have "url_finditer (c # cs) = url_finditer cs" by (rule url_finditer_skip)
  moreover have "url_finditer cs = []"
  proof (rule Cons.IH)
    fix j assume "j \<le> length cs"
    with Cons.prems [of "Suc j"] show "\<not> token_starts (drop j cs)" by simp
  qed
  ultimately show ?case by simp
qed

lemma url_finditer_gap:
  "(\<And>j. j < length gap \<Longrightarrow> \<not> token_starts (drop j (gap @ t)))
     \<Longrightarrow> url_finditer (gap @ t) = url_finditer t"
proof (induction gap)
  case Nil
  show ?case by simp
next
  case (Cons c g)
  from Cons.prems [of 0] have "\<not> token_starts (c # g @ t)" by simp
  then have "url_finditer (c # g @ t) = url_finditer (g @ t)"
    by (rule url_finditer_skip)
  then have "url_finditer ((c # g) @ t) = url_finditer (g @ t)"
    by simp
  moreover have "url_finditer (g @ t) = url_finditer t"
  proof (rule Cons.IH)
    fix j assume "j < length g"
    with Cons.prems [of "Suc j"] show "\<not> token_starts (drop j (g @ t))" by simp
  qed
  ultimately show ?case by simp
qed

lemma tokens_of_unique: "tokens_of s ms \<Longrightarrow> url_finditer s = ms"
proof (induction rule: tokens_of.induct)
  case (no_token s)
  then show ?case by (intro url_finditer_no_token) blast
next
  case (token s gap m rest ms)
  have "url_finditer (gap @ m @ rest) = url_finditer (m @ rest)"
  proof (rule url_finditer_gap)
    fix j assume "j < length gap"
    with token(2) show "\<not> token_starts (drop j (gap @ m @ rest))"
      unfolding token(1) by blast
  qed
  also have "\<dots> = m # url_finditer rest"
    using token(3,4) by (rule url_finditer_token)
  finally show ?case by (simp add: token(1) token.IH)
qed

lemma tokens_of_skip:
  assumes "tokens_of cs ms" and "\<not> token_starts (c # cs)"
  shows "tokens_of (c # cs) ms"
  using assms(1)
proof (cases rule: tokens_of.cases)
  case no_token
  have "\<not> token_starts (drop j (c # cs))" if "j \<le> length (c # cs)" for j
  proof (cases j)
    case 0
    with assms(2) show ?thesis by simp
  next
    case (Suc j')
    with that no_token(2) [of j'] show ?thesis by simp
  qed
  then have "tokens_of (c # cs) []" by (rule tokens_of.no_token)
  with no_token(1) show ?thesis by simp
next
  case (token gap m rest ms')
  have s: "c # cs = (c # gap) @ m @ rest" by (simp add: token(2))
  have g: "\<not> token_starts (drop j (c # cs))" if "j < length (c # gap)" for j
  proof (cases j)
    case 0
    with assms(2) show ?thesis by simp
  next
    case (Suc j')
    with that token(3) [of j'] show ?thesis by simp
  qed
  from tokens_of.token [OF s g token(4,5,6)] token(1) show ?thesis by simp
qed

lemma tokens_of_url_finditer: "tokens_of s (url_finditer s)"
proof (induction s rule: url_finditer.induct)
  case 1
  have "tokens_of [] []" by (rule tokens_of.no_token) (simp add: token_starts_def)
  then show ?case by simp
next
  case (2 c cs)
  show ?case
  proof (cases "match_url_at (c # cs)")
    case None
    then have n: "\<not> token_starts (c # cs)" by (simp add: match_url_at_None_iff)
    from 2(1) [OF None] have "tokens_of cs (url_finditer cs)" .
    then have "tokens_of (c # cs) (url_finditer cs)" using n by (rule tokens_of_skip)
    with None show ?thesis by simp
  next
    case (Some p)
    obtain m rest where p: "p = (m, rest)" by (cases p)
    from match_url_at_Some [of "c # cs" m rest] Some p
    have s: "c # cs = [] @ m @ rest" and t: "url_token m"
      and r: "rest = [] \<or> \<not> token_char (hd rest)"
      by simp_all
    from 2(2) [OF Some p [symmetric]] have ih: "tokens_of rest (url_finditer rest)" .
    have "tokens_of (c # cs) (m # url_finditer rest)"
      by (rule tokens_of.token [OF s _ t r ih]) simp
    with Some p show ?thesis by simp
  qed
qed

lemma tokens_of_iff: "tokens_of s ms \<longleftrightarrow> ms = url_finditer s"
  using tokens_of_unique tokens_of_url_finditer by blast

lemma plain_char_escape: "plain_char c \<Longrightarrow> escape_char True c = [c]"
  by (auto simp: plain_char_def escape_char_def)

lemma encode_basestring_plain:
  "list_all plain_char u \<Longrightarrow> encode_basestring True u = CHR 0x22 # u @ [CHR 0x22]"
proof -
  assume "list_all plain_char u"
  then have "concat (map (escape_char True) u) = u"
    by (induction u) (simp_all add: plain_char_escape)
  then show ?thesis by (simp add: encode_basestring_def)
qed

lemma not_h_no_token: "c \<noteq> CHR ''h'' \<Longrightarrow> \<not> token_starts (c # cs)"
  by (auto simp: token_starts_def)

lemma url_finditer_quoted:
  assumes "url_token u"
  shows "url_finditer (CHR 0x22 # u @ CHR 0x22 # rest) = u # url_finditer rest"
proof -
  have q: "\<not> token_char (CHR 0x22)" by (simp add: token_char_def)
  have "url_finditer (CHR 0x22 # u @ CHR 0x22 # rest) = url_finditer (u @ CHR 0x22 # rest)"
    by (rule url_finditer_skip) (simp add: not_h_no_token)
  also have "\<dots> = u # url_finditer (CHR 0x22 # rest)"
    using assms by (rule url_finditer_token) (simp add: q)
  also have "url_finditer (CHR 0x22 # rest) = url_finditer rest"
    by (rule url_finditer_skip) (simp add: not_h_no_token)
  finally show ?thesis .
qed

lemma url_finditer_plain_list:
  "list_all plain_url us
     \<Longrightarrow> url_finditer (join '', '' (map (encode_basestring True) us) @ '']'') = us"
proof (induction us)
  case Nil
  have "url_finditer '']'' = url_finditer []"
    by (rule url_finditer_skip) (simp add: not_h_no_token)
  then show ?case by simp
next
  case (Cons u us)
  from Cons.prems have "plain_url u" and rest: "list_all plain_url us" by simp_all
  then have u: "url_token u" "list_all plain_char u" by (simp_all add: plain_url_def)
  let ?R = "(if us = [] then [] else '', '' @ join '', '' (map (encode_basestring True) us)) @ '']''"
  have "join '', '' (map (encode_basestring True) (u # us)) @ '']''
      = CHR 0x22 # u @ CHR 0x22 # ?R"
    by (simp add: join_Cons encode_basestring_plain [OF u(2)])
  then have "url_finditer (join '', '' (map (encode_basestring True) (u # us)) @ '']'')
      = u # url_finditer ?R"
    by (simp only: url_finditer_quoted [OF u(1)])
  moreover have "url_finditer ?R = us"
  proof (cases "us = []")
    case True
    have "url_finditer '']'' = url_finditer []"
      by (rule url_finditer_skip) (simp add: not_h_no_token)
    with True show ?thesis by simp
  next
    case False
    let ?J = "join '', '' (map (encode_basestring True) us) @ '']''"
    have "url_finditer (CHR '','' # CHR '' '' # ?J) = url_finditer (CHR '' '' # ?J)"
      by (rule url_finditer_skip) (simp add: not_h_no_token)
    also have "\<dots> = url_finditer ?J"
      by (rule url_finditer_skip) (simp add: not_h_no_token)
    also have "\<dots> = us" using rest by (rule Cons.IH)
    finally show ?thesis using False by simp
  qed
  ultimately show ?case by simp
qed

lemma resolve_urls_plain_list:
  assumes "list_all plain_url us"
  shows "resolve_urls (JArr (map JStr us)) = map JStr us"
proof -
  have "dumps True False (JArr (map JStr us))
      = CHR ''['' # join '', '' (map (encode_basestring True) us) @ '']''"
    by (simp add: comp_def)
  moreover have "url_finditer (CHR ''['' # join '', '' (map (encode_basestring True) us) @ '']'')
      = url_finditer (join '', '' (map (encode_basestring True) us) @ '']'')"
    by (rule url_finditer_skip) (simp add: not_h_no_token)
  ultimately have "url_finditer (dumps True False (JArr (map JStr us))) = us"
    using url_finditer_plain_list [OF assms] by simp
  then show ?thesis by (simp add: resolve_urls_def)
qed

lemma filter_truthy_strings:
  "(\<And>m. m \<in> set ms \<Longrightarrow> m \<noteq> []) \<Longrightarrow> filter py_truthy (map JStr ms) = map JStr ms"
  by (induction ms) auto

lemma url_finditer_not_empty: "m \<in> set (url_finditer s) \<Longrightarrow> m \<noteq> []"
proof (induction s arbitrary: m rule: url_finditer.induct)
  case 1
  then show ?case by simp
next
  case (2 c cs)
  show ?case
  proof (cases "match_url_at (c # cs)")
    case None
    with 2 show ?thesis by simp
  next
    case (Some p)
    obtain m' rest where p: "p = (m', rest)" by (cases p)
    from match_url_at_Some [of "c # cs" m' rest] Some p have "url_token m'" by simp
    then have "m' \<noteq> []" by (rule url_token_not_empty)
    with 2(2) [OF Some p [symmetric]] 2(3) Some p show ?thesis by auto
  qed
qed

text \<open>
  C7. When the index is not a dict whose \<^verbatim>\<open>urls\<close> is a list, the URLs are the matches of the
  URL pattern in \<^verbatim>\<open>json.dumps(data)\<close>, and these are all the tokens of that text and no other
  list: every \<^verbatim>\<open>http://\<close> or \<^verbatim>\<open>https://\<close> followed by a run of characters that are not white
  space, quotes or commas, each as long as its run goes, in the order of the text, found
  wherever one starts outside the token before. Nothing removes a repeated one: an index that
  is a list of plain URLs resolves to that very list, repeats and all, and the loop requests
  the URLs of the resolved list one by one, a repeated one as often as it occurs.
\<close>

theorem fallback_scans_serialized_index:
  assumes "\<not> urls_is_list data"
  shows "resolve_urls data = map JStr (url_finditer (dumps True False data))
       \<and> (\<forall>ms. tokens_of (dumps True False data) ms \<longleftrightarrow> resolve_urls data = map JStr ms)
       \<and> (list_all plain_url us \<longrightarrow> resolve_urls (JArr (map JStr us)) = map JStr us)
       \<and> (0 \<le> arg_delay a \<and> arg_max a = 0 \<longrightarrow>
            (\<exists>st. main_merge net loads a data = Inr st \<and> requests st = resolve_urls data))"
proof -
  let ?ms = "url_finditer (dumps True False data)"
  have 1: "resolve_urls data = map JStr ?ms"
    using assms by (auto simp: resolve_urls_def urls_is_list_def split: json.splits option.splits)
  have 2: "\<forall>ms. tokens_of (dumps True False data) ms \<longleftrightarrow> resolve_urls data = map JStr ms"
  proof
    fix ms
    have "map JStr ?ms = map JStr ms \<longleftrightarrow> ?ms = ms"
      by (rule inj_map_eq_map) (simp add: inj_on_def)
    then show "tokens_of (dumps True False data) ms \<longleftrightarrow> resolve_urls data = map JStr ms"
      by (auto simp: 1 tokens_of_iff)
  qed
  have 3: "list_all plain_url us \<longrightarrow> resolve_urls (JArr (map JStr us)) = map JStr us"
    by (simp add: resolve_urls_plain_list)
  have 4: "0 \<le> arg_delay a \<and> arg_max a = 0 \<longrightarrow>
            (\<exists>st. main_merge net loads a data = Inr st \<and> requests st = resolve_urls data)"
  proof
    assume a: "0 \<le> arg_delay a \<and> arg_max a = 0"
    then obtain st where st: "merge_loop net loads a (resolve_urls data) init_state = Inr st"
      using merge_loop_returns by blast
    from merge_loop_uncapped [OF _ _ st] a
    have "requests st = requests init_state @ filter py_truthy (resolve_urls data)" by blast
    then have "requests st = resolve_urls data"
      by (simp add: 1 init_state_def filter_truthy_strings url_finditer_not_empty)
    with st show "\<exists>st. main_merge net loads a data = Inr st \<and> requests st = resolve_urls data"
      by (simp add: main_merge_def)
  qed
  from 1 2 3 4 show ?thesis by blast
qed

text \<open>
  An index in which a URL occurs twice, once ended by a quote and once by a space: it is
  resolved twice and requested twice, and the list without the repeat is not the list of the
  tokens.
\<close>

theorem fallback_scans_serialized_index_witness:
  \<open>dumps True False twice_index
     = ''{"a": "http://x/1", "b": ["http://x/1 twice", "see https://y/2, or not"], "urls": 3}''
   \<and> resolve_urls twice_index = [JStr ''http://x/1'', JStr ''http://x/1'', JStr ''https://y/2'']
   \<and> tokens_of (dumps True False twice_index) [''http://x/1'', ''http://x/1'', ''https://y/2'']
   \<and> \<not> tokens_of (dumps True False twice_index) [''http://x/1'', ''https://y/2'']
   \<and> \<not> tokens_of (dumps True False twice_index) []
   \<and> resolve_urls (JArr [JStr ''http://x/1'', JStr ''http://x/1''])
       = [JStr ''http://x/1'', JStr ''http://x/1'']
   \<and> (\<exists>st. main_merge (\<lambda>i u. Inl RequestException) (\<lambda>s. Inl JSONDecodeError)
              \<lparr>arg_delay = 1/2, arg_max = 0\<rparr> twice_index = Inr st
          \<and> requests st = [JStr ''http://x/1'', JStr ''http://x/1'', JStr ''https://y/2''])\<close>
proof -
  let ?a = "\<lparr>arg_delay = 1/2, arg_max = 0\<rparr>"
  let ?u = "''http://x/1''"
  have h: "\<not> urls_is_list twice_index"
    by (simp add: urls_is_list_def twice_index_def dict_get_def)
  have d: \<open>dumps True False twice_index
     = ''{"a": "http://x/1", "b": ["http://x/1 twice", "see https://y/2, or not"], "urls": 3}''\<close>
    by code_simp
  have f: \<open>url_finditer ''{"a": "http://x/1", "b": ["http://x/1 twice", "see https://y/2, or not"], "urls": 3}''
     = [''http://x/1'', ''http://x/1'', ''https://y/2'']\<close>
    by code_simp
  have p: "0 \<le> arg_delay ?a \<and> arg_max ?a = 0" by simp
  have "url_token ?u"
    unfolding url_token_def
    by (rule exI [of _ "''x/1''"]) (simp add: token_char_def white_space_def)
  moreover have "list_all plain_char ?u" by (simp add: plain_char_def)
  ultimately have pl: "list_all plain_url [?u, ?u]" by (simp add: plain_url_def)
  note th = fallback_scans_serialized_index [OF h, where a = "?a" and us = "[?u, ?u]"
      and net = "\<lambda>i u. Inl RequestException" and loads = "\<lambda>s. Inl JSONDecodeError"]
  from th have "resolve_urls twice_index = map JStr (url_finditer (dumps True False twice_index))"
    by blast
  then have r: "resolve_urls twice_index
      = [JStr ''http://x/1'', JStr ''http://x/1'', JStr ''https://y/2'']"
    by (simp only: d f list.map)
  from th have t: "\<And>ms. tokens_of (dumps True False twice_index) ms
      \<longleftrightarrow> resolve_urls twice_index = map JStr ms"
    by blast
  have t1: "tokens_of (dumps True False twice_index) [''http://x/1'', ''http://x/1'', ''https://y/2'']"
    by (simp add: t r)
  have t2: "\<not> tokens_of (dumps True False twice_index) [''http://x/1'', ''https://y/2'']"
    by (simp add: t r)
  have t3: "\<not> tokens_of (dumps True False twice_index) []"
    by (simp add: t r)
  from th pl have l: "resolve_urls (JArr (map JStr [?u, ?u])) = map JStr [?u, ?u]" by blast
  then have l': "resolve_urls (JArr [JStr ?u, JStr ?u]) = [JStr ?u, JStr ?u]" by simp
  from th p have "\<exists>st. main_merge (\<lambda>i u. Inl RequestException) (\<lambda>s. Inl JSONDecodeError)
              ?a twice_index = Inr st \<and> requests st = resolve_urls twice_index"
    by blast
  then have q: "\<exists>st. main_merge (\<lambda>i u. Inl RequestException) (\<lambda>s. Inl JSONDecodeError)
              ?a twice_index = Inr st
          \<and> requests st = [JStr ''http://x/1'', JStr ''http://x/1'', JStr ''https://y/2'']"
    by (simp only: r)
  from d r t1 t2 t3 l' q show ?thesis by blast
qed

section \<open>The cap on the number of URLs\<close>

text \<open>
  C8. With \<^verbatim>\<open>--max n\<close> for a positive \<open>n\<close> and more than \<open>n\<close> URLs, the loop runs \<open>n\<close>
  iterations: \<^verbatim>\<open>fetch_and_extract\<close> is called for the first \<open>n\<close> URLs and for no other,
  whatever the responses hold (the requests are those URLs, the empty string left out), and
  the delay is slept \<open>n\<close> times. With \<^verbatim>\<open>--max 0\<close>, the default, every URL is processed.
\<close>

theorem max_caps_processed_urls:
  assumes "0 \<le> arg_delay a"
  shows "(arg_max a = int n \<and> 0 < n \<and> n < length urls \<longrightarrow>
            (\<exists>st. merge_loop net loads a urls init_state = Inr st
                \<and> processed st = n
                \<and> requests st = filter py_truthy (take n urls)
                \<and> sleeps st = replicate n (arg_delay a)))
       \<and> (arg_max a = 0 \<longrightarrow>
            (\<exists>st. merge_loop net loads a urls init_state = Inr st
                \<and> processed st = length urls
                \<and> requests st = filter py_truthy urls
                \<and> sleeps st = replicate (length urls) (arg_delay a)))"
proof (intro conjI impI)
  assume n: "arg_max a = int n \<and> 0 < n \<and> n < length urls"
  obtain st where st: "merge_loop net loads a urls init_state = Inr st"
    using merge_loop_returns [OF assms] by blast
  have "processed init_state \<le> n" by (simp add: init_state_def)
  from merge_loop_capped [OF assms _ _ this st] n
  have "processed st = n \<and> requests st = filter py_truthy (take n urls)
      \<and> sleeps st = replicate n (arg_delay a)"
    by (simp add: init_state_def)
  with st show "\<exists>st. merge_loop net loads a urls init_state = Inr st
      \<and> processed st = n \<and> requests st = filter py_truthy (take n urls)
      \<and> sleeps st = replicate n (arg_delay a)"
    by blast
next
  assume z: "arg_max a = 0"
  obtain st where st: "merge_loop net loads a urls init_state = Inr st"
    using merge_loop_returns [OF assms] by blast
  from merge_loop_uncapped [OF assms z st]
  have "processed st = length urls \<and> requests st = filter py_truthy urls
      \<and> sleeps st = replicate (length urls) (arg_delay a)"
    by (simp add: init_state_def)
  with st show "\<exists>st. merge_loop net loads a urls init_state = Inr st
      \<and> processed st = length urls \<and> requests st = filter py_truthy urls
      \<and> sleeps st = replicate (length urls) (arg_delay a)"
    by blast
qed

theorem max_caps_processed_urls_witness:
  "(\<exists>st. merge_loop (\<lambda>i u. Inr (ok_response (JArr [u, JInt (int i)]))) (\<lambda>s. Inl JSONDecodeError)
            \<lparr>arg_delay = 1/2, arg_max = 2\<rparr> five_urls init_state = Inr st
        \<and> processed st = 2
        \<and> requests st = [JStr ''http://x/1'', JStr ''http://x/2'']
        \<and> sleeps st = [1/2, 1/2])
   \<and> (\<exists>st. merge_loop (\<lambda>i u. Inr (ok_response (JArr [u, JInt (int i)]))) (\<lambda>s. Inl JSONDecodeError)
            \<lparr>arg_delay = 1/2, arg_max = 0\<rparr> five_urls init_state = Inr st
        \<and> processed st = 5
        \<and> requests st = five_urls
        \<and> sleeps st = [1/2, 1/2, 1/2, 1/2, 1/2])"
proof -
  let ?net = "\<lambda>i u. Inr (ok_response (JArr [u, JInt (int i)]))"
  let ?loads = "\<lambda>s::string. Inl JSONDecodeError :: pyerror + json"
  have d2: "0 \<le> arg_delay \<lparr>arg_delay = 1/2, arg_max = 2\<rparr>" by simp
  have d0: "0 \<le> arg_delay \<lparr>arg_delay = 1/2, arg_max = 0\<rparr>" by simp
  have two: "replicate 2 (1/2 :: rat) = [1/2, 1/2]" by (simp add: numeral_2_eq_2)
  have five: "replicate 5 (1/2 :: rat) = [1/2, 1/2, 1/2, 1/2, 1/2]" by (simp add: eval_nat_numeral)
  have len: "length five_urls = 5" by (simp add: five_urls_def)
  have t2: "filter py_truthy (take 2 five_urls) = [JStr ''http://x/1'', JStr ''http://x/2'']"
    by (simp add: five_urls_def numeral_2_eq_2)
  have t5: "filter py_truthy five_urls = five_urls"
    by (simp add: five_urls_def)
  from max_caps_processed_urls [OF d2, of 2 five_urls ?net ?loads]
  have a: "\<exists>st. merge_loop ?net ?loads \<lparr>arg_delay = 1/2, arg_max = 2\<rparr> five_urls init_state = Inr st
        \<and> processed st = 2
        \<and> requests st = [JStr ''http://x/1'', JStr ''http://x/2'']
        \<and> sleeps st = [1/2, 1/2]"
    by (simp add: two t2 len)
  from max_caps_processed_urls [OF d0, of 2 five_urls ?net ?loads]
  have b: "\<exists>st. merge_loop ?net ?loads \<lparr>arg_delay = 1/2, arg_max = 0\<rparr> five_urls init_state = Inr st
        \<and> processed st = 5
        \<and> requests st = five_urls
        \<and> sleeps st = [1/2, 1/2, 1/2, 1/2, 1/2]"
    by (simp add: five t5 len)
  from a b show ?thesis by blast
qed

section \<open>A URL that fails\<close>

lemma fetch_failure_result:
  assumes "fetch_failure get loads u"
  shows "fetch_and_extract get loads u = (if py_truthy u then [u] else [], Inr [])"
  using assms
  by (auto simp: fetch_failure_def fetch_and_extract_def split: sum.splits option.splits)

text \<open>
  C9. A URL whose fetch fails (an exception of \<^verbatim>\<open>requests.get\<close>, a status other than 200, or
  a body that yields nothing) contributes no entry: \<^verbatim>\<open>fetch_and_extract\<close> returns the empty
  list, the loop goes on with the URLs behind it from a state whose \<^verbatim>\<open>merged\<close> and \<^verbatim>\<open>seen\<close> are
  untouched, and the loop returns: no exception leaves it.
\<close>

theorem failed_url_contributes_nothing:
  assumes "0 \<le> arg_delay a"
    and "\<not> (arg_max a \<noteq> 0 \<and> int (processed st) \<ge> arg_max a)"
    and "fetch_failure (net (processed st)) loads u"
  shows "snd (fetch_and_extract (net (processed st)) loads u) = Inr []
       \<and> merge_loop net loads a (u # us) st
           = merge_loop net loads a us
               (st\<lparr>requests := requests st @ (if py_truthy u then [u] else []),
                   processed := processed st + 1,
                   sleeps := sleeps st @ [arg_delay a]\<rparr>)
       \<and> (\<exists>st'. merge_loop net loads a (u # us) st = Inr st')"
proof -
  have f: "fetch_and_extract (net (processed st)) loads u
      = (if py_truthy u then [u] else [], Inr [])"
    using assms(3) by (rule fetch_failure_result)
  have step: "merge_loop net loads a (u # us) st
           = merge_loop net loads a us
               (st\<lparr>requests := requests st @ (if py_truthy u then [u] else []),
                   processed := processed st + 1,
                   sleeps := sleeps st @ [arg_delay a]\<rparr>)"
    using assms(1,2) by (auto simp: f time_sleep_def Let_def)
  have "\<exists>st'. merge_loop net loads a (u # us) st = Inr st'"
    using assms(1) by (rule merge_loop_returns)
  with f step show ?thesis by simp
qed

theorem failed_url_contributes_nothing_witness:
  "merge_loop (\<lambda>i u. if i = 0 then Inr not_found else Inr (ok_response (JArr [JInt 7])))
      (\<lambda>s. Inl JSONDecodeError) \<lparr>arg_delay = 1/2, arg_max = 0\<rparr>
      [JStr ''http://x/1'', JStr ''http://x/2''] init_state
   = Inr \<lparr>merged = [JInt 7], seen = {''7''}, processed = 2,
          requests = [JStr ''http://x/1'', JStr ''http://x/2''], sleeps = [1/2, 1/2]\<rparr>"
proof -
  let ?net = "\<lambda>(i::nat) (u::json). if i = 0 then Inr not_found else Inr (ok_response (JArr [JInt 7])) :: pyerror + response"
  let ?loads = "\<lambda>s::string. Inl JSONDecodeError :: pyerror + json"
  let ?a = "\<lparr>arg_delay = 1/2, arg_max = 0\<rparr>"
  have h1: "0 \<le> arg_delay ?a" by simp
  have h2: "\<not> (arg_max ?a \<noteq> 0 \<and> int (processed init_state) \<ge> arg_max ?a)" by simp
  have h3: "fetch_failure (?net (processed init_state)) ?loads (JStr ''http://x/1'')"
    by (simp add: fetch_failure_def init_state_def not_found_def)
  have k: "normalize_site (JInt 7) = ''7''"
    by (simp add: normalize_site_def int_repr_def nat_digits.simps digit_char_def)
  from failed_url_contributes_nothing [where net = "?net" and loads = "?loads" and a = "?a"
      and st = init_state and u = "JStr ''http://x/1''" and us = "[JStr ''http://x/2'']", OF h1 h2 h3]
  have "merge_loop ?net ?loads ?a [JStr ''http://x/1'', JStr ''http://x/2''] init_state
      = merge_loop ?net ?loads ?a [JStr ''http://x/2'']
         (init_state\<lparr>requests := requests init_state @ [JStr ''http://x/1''],
            processed := processed init_state + 1,
            sleeps := sleeps init_state @ [arg_delay ?a]\<rparr>)"
    by simp
  also have "\<dots> = Inr \<lparr>merged = [JInt 7], seen = {''7''}, processed = 2,
          requests = [JStr ''http://x/1'', JStr ''http://x/2''], sleeps = [1/2, 1/2]\<rparr>"
    by (simp add: init_state_def fetch_and_extract_def ok_response_def response_sites_def
        shape_sites_def time_sleep_def k)
  finally show ?thesis .
qed

section \<open>The empty URL\<close>

text \<open>
  C10. An empty string among the URLs (a string entry \<^verbatim>\<open>""\<close> of the index's \<^verbatim>\<open>urls\<close> list is
  taken as it is) makes \<^verbatim>\<open>fetch_and_extract\<close> return the empty list with no request issued;
  the iteration still counts in \<^verbatim>\<open>processed\<close>, which is what the cap compares, and the delay
  is still slept behind it.
\<close>

theorem empty_url_no_request:
  assumes "\<not> (arg_max a \<noteq> 0 \<and> int (processed st) \<ge> arg_max a)" and "0 \<le> arg_delay a"
  shows "resolve_urls (JObj [(''urls'', JArr [JStr ''''])]) = [JStr '''']
       \<and> fetch_and_extract (net (processed st)) loads (JStr '''') = ([], Inr [])
       \<and> merge_loop net loads a (JStr '''' # us) st
           = merge_loop net loads a us
               (st\<lparr>processed := processed st + 1, sleeps := sleeps st @ [arg_delay a]\<rparr>)"
proof -
  have r: "resolve_urls (JObj [(''urls'', JArr [JStr ''''])]) = [JStr '''']"
    by (simp add: resolve_urls_def dict_get_def resolve_entry_def)
  have f: "fetch_and_extract (net (processed st)) loads (JStr '''') = ([], Inr [])"
    by (simp add: fetch_and_extract_def)
  have "merge_loop net loads a (JStr '''' # us) st
           = merge_loop net loads a us
               (st\<lparr>processed := processed st + 1, sleeps := sleeps st @ [arg_delay a]\<rparr>)"
    using assms by (auto simp: f time_sleep_def Let_def)
  with r f show ?thesis by simp
qed

text \<open>
  With a cap of one, the empty URL uses the cap up: the URL behind it is not requested, and
  one delay has been slept.
\<close>

theorem empty_url_no_request_witness:
  "merge_loop (\<lambda>i u. Inl RequestException) (\<lambda>s. Inl JSONDecodeError)
      \<lparr>arg_delay = 1/2, arg_max = 1\<rparr> [JStr '''', JStr ''http://x/1''] init_state
     = Inr \<lparr>merged = [], seen = {}, processed = 1, requests = [], sleeps = [1/2]\<rparr>"
proof -
  let ?a = "\<lparr>arg_delay = 1/2, arg_max = 1\<rparr>"
  have h1: "\<not> (arg_max ?a \<noteq> 0 \<and> int (processed init_state) \<ge> arg_max ?a)"
    by (simp add: init_state_def)
  have h2: "0 \<le> arg_delay ?a" by simp
  from empty_url_no_request [OF h1 h2, of "\<lambda>i u. Inl RequestException" "\<lambda>s. Inl JSONDecodeError" "[JStr ''http://x/1'']"]
  have "merge_loop (\<lambda>i u. Inl RequestException) (\<lambda>s. Inl JSONDecodeError) ?a [JStr '''', JStr ''http://x/1''] init_state
      = merge_loop (\<lambda>i u. Inl RequestException) (\<lambda>s. Inl JSONDecodeError) ?a [JStr ''http://x/1'']
          (init_state\<lparr>processed := processed init_state + 1,
             sleeps := sleeps init_state @ [arg_delay ?a]\<rparr>)"
    by blast
  also have "\<dots> = Inr \<lparr>merged = [], seen = {}, processed = 1, requests = [], sleeps = [1/2]\<rparr>"
    by (simp add: init_state_def)
  finally show ?thesis .
qed

end
